theory Spec2Isabelle
  imports Main "HOL-Library.Word" "HOL-Library.Multiset" "HOL-Library.Monad_Syntax"
begin

unbundle bit_operations_syntax

section \<open>JavaScript strings\<close>

text \<open>
  A JavaScript string is modelled as a \<^typ>\<open>string\<close>: a list of characters, each standing
  for one UTF-16 code unit below 256. Within that range the white space of
  \<^verbatim>\<open>String.prototype.trim\<close> and of the regular expression class \<^verbatim>\<open>\s\<close> is TAB, LF, VT, FF,
  CR, SPACE and NBSP; \<^verbatim>\<open>\d\<close> is an ASCII digit, \<^verbatim>\<open>\w\<close> an ASCII letter, digit or
  underscore, and \<^verbatim>\<open>.\<close> is any code unit but LF and CR.
\<close>

abbreviation NL :: char where "NL \<equiv> CHR 0x0A"
abbreviation CR :: char where "CR \<equiv> CHR 0x0D"
abbreviation DQ :: char where "DQ \<equiv> CHR 0x22"

definition isSpace :: "char \<Rightarrow> bool" where
  "isSpace c \<longleftrightarrow> c = CHR 0x09 \<or> c = NL \<or> c = CHR 0x0B \<or> c = CHR 0x0C \<or> c = CR
     \<or> c = CHR 0x20 \<or> c = CHR 0xA0"

definition isDigit :: "char \<Rightarrow> bool" where
  "isDigit c \<longleftrightarrow> (48::nat) \<le> of_char c \<and> of_char c \<le> (57::nat)"

definition isWord :: "char \<Rightarrow> bool" where
  "isWord c \<longleftrightarrow> isDigit c \<or> ((65::nat) \<le> of_char c \<and> of_char c \<le> (90::nat))
     \<or> ((97::nat) \<le> of_char c \<and> of_char c \<le> (122::nat)) \<or> c = CHR ''_''"

definition isLineTerminator :: "char \<Rightarrow> bool" where
  "isLineTerminator c \<longleftrightarrow> c = NL \<or> c = CR"

definition trimStart :: "string \<Rightarrow> string" where
  "trimStart s = dropWhile isSpace s"

definition trimEnd :: "string \<Rightarrow> string" where
  "trimEnd s = rev (dropWhile isSpace (rev s))"

definition trim :: "string \<Rightarrow> string" where
  "trim s = trimEnd (trimStart s)"

definition startsWith :: "string \<Rightarrow> string \<Rightarrow> bool" where
  "startsWith s p \<longleftrightarrow> take (length p) s = p"

definition endsWith :: "string \<Rightarrow> string \<Rightarrow> bool" where
  "endsWith s p \<longleftrightarrow> length p \<le> length s \<and> drop (length s - length p) s = p"

text \<open>\<^verbatim>\<open>s.includes(needle)\<close>: \<open>needle\<close> occurs in \<open>s\<close> as a contiguous substring.\<close>

fun includesStr :: "string \<Rightarrow> string \<Rightarrow> bool" where
  "includesStr [] needle = (needle = [])"
| "includesStr (c # cs) needle = (startsWith (c # cs) needle \<or> includesStr cs needle)"

text \<open>The rest of \<open>s\<close> after the literal prefix \<open>p\<close>, when \<open>s\<close> starts with it.\<close>

definition afterPrefix :: "string \<Rightarrow> string \<Rightarrow> string option" where
  "afterPrefix p s = (if startsWith s p then Some (drop (length p) s) else None)"

text \<open>\<^verbatim>\<open>s.split(sep)\<close> for a one-character separator: \<^verbatim>\<open>"".split(sep)\<close> is \<^verbatim>\<open>[""]\<close>.\<close>

fun splitOn :: "char \<Rightarrow> string \<Rightarrow> string list" where
  "splitOn sep [] = [[]]"
| "splitOn sep (c # cs) =
     (if c = sep then [] # splitOn sep cs
      else (case splitOn sep cs of [] \<Rightarrow> [[c]] | l # ls \<Rightarrow> (c # l) # ls))"

text \<open>\<^verbatim>\<open>xs.join(sep)\<close>.\<close>

fun joinWith :: "string \<Rightarrow> string list \<Rightarrow> string" where
  "joinWith sep [] = []"
| "joinWith sep [x] = x"
| "joinWith sep (x # y # ys) = x @ sep @ joinWith sep (y # ys)"

text \<open>\<^verbatim>\<open>parseInt(ds, 10)\<close> on a run of digits and \<^verbatim>\<open>String(n)\<close> for a natural number. The
  model counts in \<^typ>\<open>nat\<close>, and it stands for the code on the safe integers only, the
  naturals below \<open>2 ^ 53\<close>: there every natural number is a JavaScript number,
  \<^verbatim>\<open>parseInt\<close> returns the exact value of the digits and \<^verbatim>\<open>String\<close> writes all the digits.
  Beyond them \<^verbatim>\<open>parseInt\<close> returns the nearest double, and from \<open>10 ^ 21\<close> on \<^verbatim>\<open>String\<close>
  writes an exponent (\<^verbatim>\<open>1e+21\<close>); a \<^verbatim>\<open>number\<close> of the code may also be negative or
  fractional, which a \<^typ>\<open>nat\<close> is not. A statement about the round trip of a number
  therefore carries the bound \<open>n < 2 ^ 53\<close> among its hypotheses.\<close>

definition digitVal :: "char \<Rightarrow> nat" where
  "digitVal c = of_char c - 48"

definition parseInt :: "string \<Rightarrow> nat" where
  "parseInt ds = foldl (\<lambda>n c. 10 * n + digitVal c) 0 ds"

definition digitChar :: "nat \<Rightarrow> char" where
  "digitChar d = char_of (48 + d)"

fun showNat :: "nat \<Rightarrow> string" where
  "showNat n = (if n < 10 then [digitChar n] else showNat (n div 10) @ [digitChar (n mod 10)])"

declare showNat.simps [simp del]

text \<open>The index of the first element that satisfies \<open>P\<close>, counting from \<open>i\<close>; \<open>-1\<close> when
  there is none (a \<^verbatim>\<open>for\<close> loop that returns the index at the first hit).\<close>

fun findIndexFrom :: "('a \<Rightarrow> bool) \<Rightarrow> 'a list \<Rightarrow> int \<Rightarrow> int" where
  "findIndexFrom P [] i = -1"
| "findIndexFrom P (x # xs) i = (if P x then i else findIndexFrom P xs (i + 1))"

section \<open>Line hash (document-writer.ts, hashLine)\<close>

text \<open>
  \<^verbatim>\<open>hash = ((hash << 5) + hash + line.charCodeAt(i)) >>> 0\<close>: the sum is taken modulo
  \<open>2 ^ 32\<close> by \<^verbatim>\<open>>>> 0\<close>, which is the arithmetic of \<^typ>\<open>32 word\<close>. The result is printed
  as \<^verbatim>\<open>hash.toString(16).padStart(8, '0').slice(0, 8)\<close>.
\<close>

definition djb2 :: "string \<Rightarrow> 32 word" where
  "djb2 line = foldl (\<lambda>hash c. push_bit 5 hash + hash + of_nat (of_char c)) 5381 line"

definition hexDigit :: "nat \<Rightarrow> char" where
  "hexDigit d = ''0123456789abcdef'' ! d"

fun toHex :: "nat \<Rightarrow> string" where
  "toHex n = (if n < 16 then [hexDigit n] else toHex (n div 16) @ [hexDigit (n mod 16)])"

declare toHex.simps [simp del]

definition padStart :: "nat \<Rightarrow> char \<Rightarrow> string \<Rightarrow> string" where
  "padStart n c s = replicate (n - length s) c @ s"

definition hashLine :: "string \<Rightarrow> string" where
  "hashLine line = take 8 (padStart 8 (CHR ''0'') (toHex (unat (djb2 line))))"

lemma replicate_numeral: "replicate (numeral k) x = x # replicate (pred_numeral k) x"
  by (simp add: numeral_eq_Suc)

lemmas hashLine_eval = hashLine_def djb2_def padStart_def toHex.simps hexDigit_def
  replicate_numeral

section \<open>Data model\<close>

text \<open>
  The records of \<^verbatim>\<open>types.ts\<close>. A JavaScript string is modelled as a \<^typ>\<open>string\<close>
  (a list of characters standing for code units below 256). The TypeScript unions
  (\<^verbatim>\<open>MemoStatus\<close>, \<^verbatim>\<open>MemoType\<close>, ...) are
  strings at run time and \<^verbatim>\<open>splitDocument\<close> casts whatever the file holds into them
  without a check, so the fields are strings here as well. Field names carry a prefix
  because record fields are global constants.
\<close>

record MemoV2 =
  m_id :: string
  m_type :: string
  m_status :: string
  m_owner :: string
  m_source :: string
  m_color :: string
  m_text :: string
  m_anchorText :: string
  m_anchor :: string
  m_createdAt :: string
  m_updatedAt :: string

record Gate =
  g_id :: string
  g_type :: string
  g_status :: string
  g_blockedBy :: "string list"
  g_canProceedIf :: string
  g_doneDefinition :: string

record PlanCursor =
  c_taskId :: string
  c_step :: string
  c_nextAction :: string
  c_lastSeenHash :: string
  c_updatedAt :: string

record Checkpoint =
  cp_id :: string
  cp_timestamp :: string
  cp_note :: string
  cp_fixes :: nat
  cp_questions :: nat
  cp_highlights :: nat
  cp_sectionsReviewed :: "string list"

record DocumentParts =
  frontmatter :: string
  body :: string
  memos :: "MemoV2 list"
  checkpoints :: "Checkpoint list"
  gates :: "Gate list"
  cursor :: "PlanCursor option"
  unknownComments :: "string list"

section \<open>Gate evaluator (gate-evaluator.ts)\<close>

text \<open>
  \<^verbatim>\<open>gate.blockedBy.map(id => memos.find(m => m.id === id))
     .filter(m => m != null && m.status === 'open')\<close>:
  \<^const>\<open>find\<close> is \<^verbatim>\<open>Array.prototype.find\<close> (the first element that satisfies the
  test, \<^const>\<open>None\<close> for \<^verbatim>\<open>undefined\<close>).
\<close>

definition blocking :: "Gate \<Rightarrow> MemoV2 list \<Rightarrow> MemoV2 option list" where
  "blocking gate ms =
     filter (\<lambda>r. case r of None \<Rightarrow> False | Some m \<Rightarrow> m_status m = ''open'')
       (map (\<lambda>i. find (\<lambda>m. m_id m = i) ms) (g_blockedBy gate))"

definition evaluateGate :: "Gate \<Rightarrow> MemoV2 list \<Rightarrow> string" where
  "evaluateGate gate ms =
     (if length (g_blockedBy gate) > 0 \<and> length (blocking gate ms) > 0 then ''blocked''
      else let hasOpenMemos = list_ex (\<lambda>m. m_status m = ''open'') ms
           in if \<not> hasOpenMemos then ''done'' else ''proceed'')"

definition evaluateAllGates :: "Gate list \<Rightarrow> MemoV2 list \<Rightarrow> Gate list" where
  "evaluateAllGates gs ms = map (\<lambda>gate. gate\<lparr>g_status := evaluateGate gate ms\<rparr>) gs"

text \<open>Fixtures for the concrete evaluations below: a memo and a gate with the given
  identifying fields, every other field at the value the splitter would default it to.\<close>

definition mkMemo :: "string \<Rightarrow> string \<Rightarrow> MemoV2" where
  "mkMemo i st = \<lparr>m_id = i, m_type = ''fix'', m_status = st, m_owner = ''human'',
     m_source = ''generic'', m_color = ''red'', m_text = '''', m_anchorText = '''',
     m_anchor = '''', m_createdAt = ''t0'', m_updatedAt = ''t0''\<rparr>"

definition mkGate :: "string \<Rightarrow> string list \<Rightarrow> Gate" where
  "mkGate i bs = \<lparr>g_id = i, g_type = ''merge'', g_status = ''blocked'', g_blockedBy = bs,
     g_canProceedIf = '''', g_doneDefinition = ''''\<rparr>"

subsection \<open>Helper facts\<close>

lemma blocking_nonempty_iff:
  "blocking gate ms \<noteq> [] \<longleftrightarrow>
     (\<exists>i \<in> set (g_blockedBy gate). \<exists>m. find (\<lambda>m. m_id m = i) ms = Some m \<and> m_status m = ''open'')"
proof -
  have "blocking gate ms \<noteq> [] \<longleftrightarrow>
      (\<exists>r \<in> set (map (\<lambda>i. find (\<lambda>m. m_id m = i) ms) (g_blockedBy gate)).
         case r of None \<Rightarrow> False | Some m \<Rightarrow> m_status m = ''open'')"
    unfolding blocking_def by (simp add: filter_empty_conv)
  also have "\<dots> \<longleftrightarrow>
      (\<exists>i \<in> set (g_blockedBy gate). \<exists>m. find (\<lambda>m. m_id m = i) ms = Some m \<and> m_status m = ''open'')"
    by (auto split: option.splits)
  finally show ?thesis .
qed

lemma find_Some_mem:
  "find P xs = Some x \<Longrightarrow> x \<in> set xs \<and> P x"
  by (induction xs) (auto split: if_splits)

lemma find_distinct_id:
  "distinct (map m_id ms) \<Longrightarrow> m \<in> set ms \<Longrightarrow> find (\<lambda>x. m_id x = m_id m) ms = Some m"
  by (induction ms) (auto simp: image_iff)

lemma evaluateGate_blocked_iff:
  "evaluateGate gate ms = ''blocked'' \<longleftrightarrow> blocking gate ms \<noteq> []"
proof (cases "blocking gate ms = []")
  case True
  then show ?thesis by (simp add: evaluateGate_def Let_def)
next
  case False
  then have "g_blockedBy gate \<noteq> []" by (auto simp: blocking_def)
  with False show ?thesis by (simp add: evaluateGate_def)
qed

lemma evaluateGate_not_blocked:
  "blocking gate ms = [] \<Longrightarrow>
   evaluateGate gate ms = (if \<forall>m \<in> set ms. m_status m \<noteq> ''open'' then ''done'' else ''proceed'')"
  by (auto simp: evaluateGate_def Let_def list_ex_iff)

subsection \<open>C2: the evaluation rule\<close>

text \<open>
  C2, as stated, reads "at least one referenced memo exists in the list with status open"
  over every memo list. The code resolves each blocker id with \<^verbatim>\<open>memos.find\<close>, that is
  to the first memo carrying the id. When two memos share an id and only the second is
  open, some memo with a referenced id is open, yet the gate is not blocked.
\<close>

theorem C2_counterexample:
  "g_blockedBy (mkGate ''g1'' [''m1'']) \<noteq> []
   \<and> mkMemo ''m1'' ''open'' \<in> set [mkMemo ''m1'' ''done'', mkMemo ''m1'' ''open'']
   \<and> m_id (mkMemo ''m1'' ''open'') \<in> set (g_blockedBy (mkGate ''g1'' [''m1'']))
   \<and> m_status (mkMemo ''m1'' ''open'') = ''open''
   \<and> evaluateGate (mkGate ''g1'' [''m1'']) [mkMemo ''m1'' ''done'', mkMemo ''m1'' ''open'']
       = ''proceed''"
  by (simp add: evaluateGate_def blocking_def mkGate_def mkMemo_def)

text \<open>
  C2 (amended): for every gate and memo list, \<^const>\<open>evaluateGate\<close> returns blocked when
  \<^verbatim>\<open>blockedBy\<close> is non-empty and for at least one of its ids the first memo of the list
  with that id has status open; otherwise done when no memo of the whole list is open;
  otherwise proceed. It is total and returns one of the three values. When the memo ids
  are pairwise distinct, "the first memo with a referenced id is open" is the same as
  "some memo with a referenced id is open", which is the claim's wording.
\<close>

theorem evaluateGate_rule:
  "evaluateGate gate ms =
     (if g_blockedBy gate \<noteq> [] \<and>
         (\<exists>i \<in> set (g_blockedBy gate). \<exists>m. find (\<lambda>m. m_id m = i) ms = Some m \<and> m_status m = ''open'')
      then ''blocked''
      else if (\<forall>m \<in> set ms. m_status m \<noteq> ''open'') then ''done''
      else ''proceed'')
   \<and> evaluateGate gate ms \<in> {''blocked'', ''proceed'', ''done''}
   \<and> (distinct (map m_id ms) \<longrightarrow>
        ((\<exists>i \<in> set (g_blockedBy gate). \<exists>m. find (\<lambda>m. m_id m = i) ms = Some m \<and> m_status m = ''open'')
         \<longleftrightarrow> (\<exists>m \<in> set ms. m_id m \<in> set (g_blockedBy gate) \<and> m_status m = ''open'')))"
proof (intro conjI impI)
  show "evaluateGate gate ms =
     (if g_blockedBy gate \<noteq> [] \<and>
         (\<exists>i \<in> set (g_blockedBy gate). \<exists>m. find (\<lambda>m. m_id m = i) ms = Some m \<and> m_status m = ''open'')
      then ''blocked''
      else if (\<forall>m \<in> set ms. m_status m \<noteq> ''open'') then ''done''
      else ''proceed'')"
  proof (cases "blocking gate ms = []")
    case True
    then have "\<not> (\<exists>i \<in> set (g_blockedBy gate). \<exists>m.
        find (\<lambda>m. m_id m = i) ms = Some m \<and> m_status m = ''open'')"
      using blocking_nonempty_iff [of gate ms] by simp
    with True show ?thesis
      using evaluateGate_not_blocked [of gate ms] by simp
  next
    case False
    then have ex: "\<exists>i \<in> set (g_blockedBy gate). \<exists>m.
        find (\<lambda>m. m_id m = i) ms = Some m \<and> m_status m = ''open''"
      using blocking_nonempty_iff [of gate ms] by simp
    then have ne: "g_blockedBy gate \<noteq> []" by auto
    from False have "evaluateGate gate ms = ''blocked''"
      by (simp add: evaluateGate_blocked_iff)
    with ex ne show ?thesis by simp
  qed
next
  show "evaluateGate gate ms \<in> {''blocked'', ''proceed'', ''done''}"
    by (simp add: evaluateGate_def Let_def)
next
  assume d: "distinct (map m_id ms)"
  show "(\<exists>i \<in> set (g_blockedBy gate). \<exists>m. find (\<lambda>m. m_id m = i) ms = Some m \<and> m_status m = ''open'')
         \<longleftrightarrow> (\<exists>m \<in> set ms. m_id m \<in> set (g_blockedBy gate) \<and> m_status m = ''open'')"
  proof
    assume "\<exists>i \<in> set (g_blockedBy gate). \<exists>m. find (\<lambda>m. m_id m = i) ms = Some m \<and> m_status m = ''open''"
    then obtain i m where i: "i \<in> set (g_blockedBy gate)"
      and f: "find (\<lambda>m. m_id m = i) ms = Some m" and o: "m_status m = ''open''" by blast
    from find_Some_mem [OF f] have "m \<in> set ms" "m_id m = i" by simp_all
    with i o show "\<exists>m \<in> set ms. m_id m \<in> set (g_blockedBy gate) \<and> m_status m = ''open''"
      by blast
  next
    assume "\<exists>m \<in> set ms. m_id m \<in> set (g_blockedBy gate) \<and> m_status m = ''open''"
    then obtain m where m: "m \<in> set ms" "m_id m \<in> set (g_blockedBy gate)" "m_status m = ''open''"
      by blast
    from find_distinct_id [OF d m(1)] m(2,3)
    show "\<exists>i \<in> set (g_blockedBy gate). \<exists>m. find (\<lambda>m. m_id m = i) ms = Some m \<and> m_status m = ''open''"
      by blast
  qed
qed

theorem evaluateGate_rule_witness:
  "evaluateGate (mkGate ''g1'' [''m1'']) [mkMemo ''m1'' ''open'', mkMemo ''m2'' ''done''] = ''blocked''
   \<and> evaluateGate (mkGate ''g1'' [''m1'']) [mkMemo ''m1'' ''done'', mkMemo ''m2'' ''open''] = ''proceed''
   \<and> evaluateGate (mkGate ''g1'' [''m1'']) [mkMemo ''m1'' ''done'', mkMemo ''m2'' ''done''] = ''done''
   \<and> distinct (map m_id [mkMemo ''m1'' ''open'', mkMemo ''m2'' ''done''])"
  using evaluateGate_rule [of "mkGate ''g1'' [''m1'']" "[mkMemo ''m1'' ''open'', mkMemo ''m2'' ''done'']"]
    evaluateGate_rule [of "mkGate ''g1'' [''m1'']" "[mkMemo ''m1'' ''done'', mkMemo ''m2'' ''open'']"]
    evaluateGate_rule [of "mkGate ''g1'' [''m1'']" "[mkMemo ''m1'' ''done'', mkMemo ''m2'' ''done'']"]
  by (simp add: mkGate_def mkMemo_def)

subsection \<open>C7: monotonicity in blocker resolution\<close>

text \<open>
  C7: take a gate that evaluates to blocked on \<open>ms\<close>. Let \<open>ms'\<close> be \<open>ms\<close> with the same
  memos in the same order (same ids), where every memo whose id is in \<^verbatim>\<open>blockedBy\<close> has a
  status other than open and every other memo is unchanged. Then the same gate evaluates
  on \<open>ms'\<close> to proceed or done, never to blocked.
\<close>

theorem gate_monotone:
  assumes "evaluateGate gate ms = ''blocked''"
    and "list_all2 (\<lambda>m m'. m_id m' = m_id m \<and>
           (if m_id m \<in> set (g_blockedBy gate) then m_status m' \<noteq> ''open'' else m' = m)) ms ms'"
  shows "evaluateGate gate ms' \<in> {''proceed'', ''done''} \<and> evaluateGate gate ms' \<noteq> ''blocked''"
proof -
  have closed: "m_status m' \<noteq> ''open''"
    if "m' \<in> set ms'" "m_id m' \<in> set (g_blockedBy gate)" for m'
  proof -
    from that(1) obtain k where k: "k < length ms'" "ms' ! k = m'"
      by (auto simp: in_set_conv_nth)
    have P: "m_id (ms' ! k) = m_id (ms ! k) \<and>
        (if m_id (ms ! k) \<in> set (g_blockedBy gate) then m_status (ms' ! k) \<noteq> ''open''
         else ms' ! k = ms ! k)"
      using list_all2_nthD2 [OF assms(2) k(1)] by simp
    from P have "m_id (ms' ! k) = m_id (ms ! k)" by (rule conjunct1)
    with k(2) that(2) have idk: "m_id (ms ! k) \<in> set (g_blockedBy gate)" by simp
    from P have "if m_id (ms ! k) \<in> set (g_blockedBy gate) then m_status (ms' ! k) \<noteq> ''open''
         else ms' ! k = ms ! k" by (rule conjunct2)
    with idk have "m_status (ms' ! k) \<noteq> ''open''" by simp
    with k(2) show ?thesis by simp
  qed
  have "blocking gate ms' = []"
  proof (rule ccontr)
    assume "blocking gate ms' \<noteq> []"
    then obtain i m where i: "i \<in> set (g_blockedBy gate)"
      and f: "find (\<lambda>m. m_id m = i) ms' = Some m" and o: "m_status m = ''open''"
      using blocking_nonempty_iff [of gate ms'] by blast
    from find_Some_mem [OF f] i have "m \<in> set ms'" "m_id m \<in> set (g_blockedBy gate)" by simp_all
    from closed [OF this] o show False by simp
  qed
  then show ?thesis
    using evaluateGate_not_blocked [of gate ms'] by simp
qed

theorem gate_monotone_witness:
  "evaluateGate (mkGate ''g1'' [''m1'']) [mkMemo ''m1'' ''open'', mkMemo ''m2'' ''open''] = ''blocked''
   \<and> evaluateGate (mkGate ''g1'' [''m1'']) [mkMemo ''m1'' ''answered'', mkMemo ''m2'' ''open'']
       \<in> {''proceed'', ''done''}
   \<and> evaluateGate (mkGate ''g1'' [''m1'']) [mkMemo ''m1'' ''answered'', mkMemo ''m2'' ''open'']
       \<noteq> ''blocked''"
proof -
  have b: "evaluateGate (mkGate ''g1'' [''m1'']) [mkMemo ''m1'' ''open'', mkMemo ''m2'' ''open'']
      = ''blocked''"
    by (simp add: evaluateGate_def blocking_def mkGate_def mkMemo_def)
  have r: "list_all2 (\<lambda>m m'. m_id m' = m_id m \<and>
           (if m_id m \<in> set (g_blockedBy (mkGate ''g1'' [''m1''])) then m_status m' \<noteq> ''open''
            else m' = m))
        [mkMemo ''m1'' ''open'', mkMemo ''m2'' ''open'']
        [mkMemo ''m1'' ''answered'', mkMemo ''m2'' ''open'']"
    by (simp add: mkGate_def mkMemo_def)
  from gate_monotone [OF b r] b show ?thesis by simp
qed

subsection \<open>C10: dangling blocker references\<close>

text \<open>
  C10: when no id of \<^verbatim>\<open>blockedBy\<close> is the id of a memo of the list, the gate is never
  blocked: the result is done when no memo of the list is open and proceed otherwise,
  which is also what the same gate with an empty \<^verbatim>\<open>blockedBy\<close> evaluates to.
\<close>

theorem dangling_blockers_ignored:
  assumes "\<forall>i \<in> set (g_blockedBy gate). \<forall>m \<in> set ms. m_id m \<noteq> i"
  shows "evaluateGate gate ms \<noteq> ''blocked''
    \<and> evaluateGate gate ms = (if \<forall>m \<in> set ms. m_status m \<noteq> ''open'' then ''done'' else ''proceed'')
    \<and> evaluateGate gate ms = evaluateGate (gate\<lparr>g_blockedBy := []\<rparr>) ms"
proof -
  have b: "blocking gate ms = []"
  proof (rule ccontr)
    assume "blocking gate ms \<noteq> []"
    then obtain i m where i: "i \<in> set (g_blockedBy gate)"
      and f: "find (\<lambda>m. m_id m = i) ms = Some m"
      using blocking_nonempty_iff [of gate ms] by blast
    from find_Some_mem [OF f] have "m \<in> set ms" "m_id m = i" by simp_all
    with assms i show False by blast
  qed
  have e: "blocking (gate\<lparr>g_blockedBy := []\<rparr>) ms = []" by (simp add: blocking_def)
  show ?thesis
    using evaluateGate_not_blocked [OF b] evaluateGate_not_blocked [OF e] by auto
qed

theorem dangling_blockers_ignored_witness:
  "evaluateGate (mkGate ''g1'' [''zz'']) [mkMemo ''m1'' ''open''] = ''proceed''
   \<and> evaluateGate (mkGate ''g1'' [''zz'']) [mkMemo ''m1'' ''done''] = ''done''"
proof -
  have h1: "\<forall>i \<in> set (g_blockedBy (mkGate ''g1'' [''zz''])). \<forall>m \<in> set [mkMemo ''m1'' ''open'']. m_id m \<noteq> i"
    by (simp add: mkGate_def mkMemo_def)
  have h2: "\<forall>i \<in> set (g_blockedBy (mkGate ''g1'' [''zz''])). \<forall>m \<in> set [mkMemo ''m1'' ''done'']. m_id m \<noteq> i"
    by (simp add: mkGate_def mkMemo_def)
  from dangling_blockers_ignored [OF h1] dangling_blockers_ignored [OF h2]
  show ?thesis by (simp add: mkMemo_def)
qed

section \<open>Anchor resolver (document-writer.ts, findMemoAnchorLine)\<close>

text \<open>
  \<^verbatim>\<open>memo.anchor.match(/^L(\d+)(?::L\d+)?\|(.+)$/)\<close>, returning
  \<^verbatim>\<open>parseInt(anchorMatch[1], 10)\<close> and \<^verbatim>\<open>anchorMatch[2]\<close>. The digits are taken greedily
  (what follows them must be \<^verbatim>\<open>:\<close> or \<^verbatim>\<open>|\<close>, never a digit); the optional range
  \<^verbatim>\<open>:L<digits>\<close> is consumed when present (dropping it leaves a \<^verbatim>\<open>:\<close> where
  \<^verbatim>\<open>|\<close> is required); the hash is the non-empty rest, free of line terminators.
\<close>

definition anchorMatch :: "string \<Rightarrow> (nat \<times> string) option" where
  "anchorMatch a =
     (case a of
        [] \<Rightarrow> None
      | c # r \<Rightarrow>
          if c \<noteq> CHR ''L'' \<or> takeWhile isDigit r = [] then None
          else
            let r1 = dropWhile isDigit r;
                r2 = (case r1 of
                        c1 # c2 # q \<Rightarrow>
                          if c1 = CHR '':'' \<and> c2 = CHR ''L'' \<and> takeWhile isDigit q \<noteq> []
                          then dropWhile isDigit q else r1
                      | _ \<Rightarrow> r1)
            in (case r2 of
                  [] \<Rightarrow> None
                | b # h \<Rightarrow>
                    if b = CHR ''|'' \<and> h \<noteq> [] \<and> \<not> list_ex isLineTerminator h
                    then Some (parseInt (takeWhile isDigit r), h) else None))"

text \<open>\<^verbatim>\<open>d >= 0 && d < lines.length && hashLine(lines[d]) === expectedHash\<close>.\<close>

definition hashMatches :: "string list \<Rightarrow> string \<Rightarrow> int \<Rightarrow> bool" where
  "hashMatches lines expectedHash d \<longleftrightarrow>
     d \<ge> 0 \<and> d < int (length lines) \<and> hashLine (lines ! nat d) = expectedHash"

text \<open>The candidates of the nearby search in the order the two nested loops visit them:
  \<^verbatim>\<open>for (delta = 1; delta <= 10; delta++) for (const d of [lineNum - delta, lineNum + delta])\<close>.\<close>

definition probeOrder :: "int \<Rightarrow> int list" where
  "probeOrder lineNum = concat (map (\<lambda>delta. [lineNum - delta, lineNum + delta]) (map int [1..<11]))"

definition findMemoAnchorLine :: "string list \<Rightarrow> MemoV2 \<Rightarrow> int" where
  "findMemoAnchorLine lines memo =
     (case (if m_anchor memo \<noteq> [] then
              (case anchorMatch (m_anchor memo) of
                 None \<Rightarrow> None
               | Some (n, expectedHash) \<Rightarrow>
                   let lineNum = int n - 1
                   in if hashMatches lines expectedHash lineNum then Some lineNum
                      else find (hashMatches lines expectedHash) (probeOrder lineNum))
            else None) of
        Some d \<Rightarrow> d
      | None \<Rightarrow>
          if m_anchorText memo \<noteq> [] then
            (let needle = trim (m_anchorText memo)
             in findIndexFrom (\<lambda>l. includesStr l needle) lines 0)
          else -1)"

text \<open>A memo fixture with the two anchor fields given.\<close>

definition anchored :: "string \<Rightarrow> string \<Rightarrow> MemoV2" where
  "anchored a t = (mkMemo ''m1'' ''open'')\<lparr>m_anchorText := t, m_anchor := a\<rparr>"

subsection \<open>Helper facts\<close>

lemma startsWith_append [simp]: "startsWith (p @ r) p"
  by (simp add: startsWith_def)

lemma includesStr_iff: "includesStr s n \<longleftrightarrow> (\<exists>a b. s = a @ n @ b)"
proof (induction s)
  case Nil
  then show ?case by auto
next
  case (Cons c cs)
  have "startsWith (c # cs) n \<longleftrightarrow> (\<exists>b. c # cs = n @ b)"
    unfolding startsWith_def
    by (metis append_eq_conv_conj append_take_drop_id)
  moreover have "(\<exists>a b. c # cs = a @ n @ b) \<longleftrightarrow> (\<exists>b. c # cs = n @ b) \<or> (\<exists>a b. cs = a @ n @ b)"
  proof
    assume "\<exists>a b. c # cs = a @ n @ b"
    then obtain a b where ab: "c # cs = a @ n @ b" by blast
    show "(\<exists>b. c # cs = n @ b) \<or> (\<exists>a b. cs = a @ n @ b)"
    proof (cases a)
      case Nil
      with ab show ?thesis by auto
    next
      case (Cons x a')
      with ab have "cs = a' @ n @ b" by simp
      then show ?thesis by blast
    qed
  next
    assume "(\<exists>b. c # cs = n @ b) \<or> (\<exists>a b. cs = a @ n @ b)"
    then show "\<exists>a b. c # cs = a @ n @ b"
    proof
      assume "\<exists>b. c # cs = n @ b"
      then obtain b where "c # cs = [] @ n @ b" by auto
      then show ?thesis by blast
    next
      assume "\<exists>a b. cs = a @ n @ b"
      then obtain a b where "c # cs = (c # a) @ n @ b" by auto
      then show ?thesis by blast
    qed
  qed
  ultimately show ?case using Cons.IH by simp
qed

lemma findIndexFrom_first:
  "i < length xs \<Longrightarrow> P (xs ! i) \<Longrightarrow> (\<forall>j<i. \<not> P (xs ! j)) \<Longrightarrow>
   findIndexFrom P xs k = k + int i"
proof (induction xs arbitrary: i k)
  case Nil
  then show ?case by simp
next
  case (Cons x xs)
  show ?case
  proof (cases i)
    case 0
    with Cons.prems show ?thesis by simp
  next
    case (Suc i')
    with Cons.prems have nx: "\<not> P x" by auto
    from Suc Cons.prems have "i' < length xs" "P (xs ! i')" "\<forall>j<i'. \<not> P (xs ! j)" by auto
    from Cons.IH [OF this, of "k + 1"] nx Suc show ?thesis by simp
  qed
qed

lemma findIndexFrom_none:
  "(\<forall>x \<in> set xs. \<not> P x) \<Longrightarrow> findIndexFrom P xs k = -1"
  by (induction xs arbitrary: k) auto

lemma find_first:
  "k < length xs \<Longrightarrow> P (xs ! k) \<Longrightarrow> (\<forall>j<k. \<not> P (xs ! j)) \<Longrightarrow> find P xs = Some (xs ! k)"
proof (induction xs arbitrary: k)
  case Nil
  then show ?case by simp
next
  case (Cons x xs)
  show ?case
  proof (cases k)
    case 0
    with Cons.prems show ?thesis by simp
  next
    case (Suc k')
    with Cons.prems have nx: "\<not> P x" by auto
    from Suc Cons.prems have "k' < length xs" "P (xs ! k')" "\<forall>j<k'. \<not> P (xs ! j)" by auto
    from Cons.IH [OF this] nx Suc show ?thesis by simp
  qed
qed

lemma find_none: "(\<forall>x \<in> set xs. \<not> P x) \<Longrightarrow> find P xs = None"
  by (induction xs) auto

lemma probeOrder_explicit:
  "probeOrder l = [l - 1, l + 1, l - 2, l + 2, l - 3, l + 3, l - 4, l + 4, l - 5, l + 5,
                   l - 6, l + 6, l - 7, l + 7, l - 8, l + 8, l - 9, l + 9, l - 10, l + 10]"
  by (simp add: probeOrder_def upt_rec)

lemma anchorMatch_Nil [simp]: "anchorMatch [] = None"
  by (simp add: anchorMatch_def)

text \<open>What the function returns once the machine anchor has been decided.\<close>

definition machineAnchor :: "string list \<Rightarrow> MemoV2 \<Rightarrow> int option" where
  "machineAnchor lines memo =
     (case anchorMatch (m_anchor memo) of
        None \<Rightarrow> None
      | Some (n, h) \<Rightarrow>
          if hashMatches lines h (int n - 1) then Some (int n - 1)
          else find (hashMatches lines h) (probeOrder (int n - 1)))"

lemma findMemoAnchorLine_machine:
  "findMemoAnchorLine lines memo =
     (case machineAnchor lines memo of
        Some d \<Rightarrow> d
      | None \<Rightarrow> if m_anchorText memo \<noteq> [] then
                  findIndexFrom (\<lambda>l. includesStr l (trim (m_anchorText memo))) lines 0
                else -1)"
  by (cases "m_anchor memo = []")
     (simp_all add: findMemoAnchorLine_def machineAnchor_def Let_def split: option.splits)


lemma find_append_skip:
  "(\<forall>x \<in> set xs. \<not> P x) \<Longrightarrow> find P (xs @ ys) = find P ys"
  by (induction xs) auto

lemma find_concat_skip:
  "(\<forall>x \<in> set xs. \<forall>y \<in> set (f x). \<not> P y) \<Longrightarrow> find P (concat (map f xs) @ ys) = find P ys"
  by (induction xs) (auto simp: find_append_skip)

lemma upt_split_at:
  assumes "1 \<le> N" "N \<le> 10"
  shows "[1..<11] = [1..<N] @ N # [Suc N..<11]"
proof -
  have "[1..<11] = [1..<N + (11 - N)]" using assms by simp
  also have "\<dots> = [1..<N] @ [N..<N + (11 - N)]"
    using assms by (intro upt_add_eq_append) simp
  also have "[N..<N + (11 - N)] = N # [Suc N..<11]"
    using assms by (simp add: upt_conv_Cons)
  finally show ?thesis .
qed

lemma probeOrder_split:
  assumes "1 \<le> N" "N \<le> 10"
  shows "probeOrder l =
     concat (map (\<lambda>delta. [l - delta, l + delta]) (map int [1..<N]))
       @ ([l - int N, l + int N]
          @ concat (map (\<lambda>delta. [l - delta, l + delta]) (map int [Suc N..<11])))"
  unfolding probeOrder_def upt_split_at [OF assms] by simp

lemma probe_finds_shifted:
  assumes "1 \<le> N" "N \<le> 10"
    and "\<forall>d. 1 \<le> d \<and> d < N \<longrightarrow> \<not> P (l - int d) \<and> \<not> P (l + int d)"
    and "\<not> P (l - int N)" "P (l + int N)"
  shows "find P (probeOrder l) = Some (l + int N)"
proof -
  have "\<forall>x \<in> set (map int [1..<N]). \<forall>y \<in> set [l - x, l + x]. \<not> P y"
    using assms(3) by auto
  from find_concat_skip [of "map int [1..<N]" "\<lambda>delta. [l - delta, l + delta]" P, OF this]
  show ?thesis
    unfolding probeOrder_split [OF assms(1,2)] using assms(4,5) by simp
qed

subsection \<open>C4: the order of the resolution steps\<close>

text \<open>
  C4, as stated, has step (3) look for the first line that contains \<^verbatim>\<open>anchorText\<close>. The
  code looks for \<^verbatim>\<open>memo.anchorText.trim()\<close>. With the anchor text \<^verbatim>\<open>" foo"\<close> and the
  single body line \<^verbatim>\<open>"foo"\<close>, no line contains the anchor text, so the claim reports
  unresolved, while the code returns line 0.
\<close>

theorem C4_counterexample:
  "m_anchor (anchored '''' '' foo'') = ''''
   \<and> m_anchorText (anchored '''' '' foo'') = '' foo''
   \<and> \<not> includesStr ''foo'' '' foo''
   \<and> findMemoAnchorLine [''foo''] (anchored '''' '' foo'') = 0"
  by (simp add: findMemoAnchorLine_def anchored_def mkMemo_def startsWith_def trim_def
      trimStart_def trimEnd_def isSpace_def)

text \<open>
  C4 (amended): anchor resolution tries, in order, first success wins:
  (1) when the anchor parses as \<^verbatim>\<open>L<n>(:L<m>)?|<hash>\<close> and line \<open>n - 1\<close> is in range with
  the stored hash, the result is \<open>n - 1\<close>;
  (2) otherwise the result is the first candidate, in the order
  \<open>n-1-1, n-1+1, n-1-2, n-1+2, \<dots>, n-1-10, n-1+10\<close>, that is in range with the stored hash;
  (3) when there is no machine-anchor match and \<^verbatim>\<open>anchorText\<close> is non-empty, the result
  is the index of the first line that contains the white-space-trimmed \<^verbatim>\<open>anchorText\<close>;
  (4) otherwise the result is \<open>-1\<close> (unresolved).
\<close>

theorem findMemoAnchorLine_order:
  "(anchorMatch (m_anchor memo) = Some (n, h) \<and> hashMatches lines h (int n - 1)
      \<longrightarrow> findMemoAnchorLine lines memo = int n - 1)
   \<and> (anchorMatch (m_anchor memo) = Some (n, h) \<and> \<not> hashMatches lines h (int n - 1)
       \<and> k < length (probeOrder (int n - 1))
       \<and> hashMatches lines h (probeOrder (int n - 1) ! k)
       \<and> (\<forall>j<k. \<not> hashMatches lines h (probeOrder (int n - 1) ! j))
      \<longrightarrow> findMemoAnchorLine lines memo = probeOrder (int n - 1) ! k)
   \<and> probeOrder l = [l - 1, l + 1, l - 2, l + 2, l - 3, l + 3, l - 4, l + 4, l - 5, l + 5,
                     l - 6, l + 6, l - 7, l + 7, l - 8, l + 8, l - 9, l + 9, l - 10, l + 10]
   \<and> ((anchorMatch (m_anchor memo) = None
         \<or> (\<exists>n h. anchorMatch (m_anchor memo) = Some (n, h) \<and> \<not> hashMatches lines h (int n - 1)
              \<and> (\<forall>c \<in> set (probeOrder (int n - 1)). \<not> hashMatches lines h c)))
       \<and> m_anchorText memo \<noteq> [] \<and> i < length lines
       \<and> includesStr (lines ! i) (trim (m_anchorText memo))
       \<and> (\<forall>j<i. \<not> includesStr (lines ! j) (trim (m_anchorText memo)))
      \<longrightarrow> findMemoAnchorLine lines memo = int i)
   \<and> ((anchorMatch (m_anchor memo) = None
         \<or> (\<exists>n h. anchorMatch (m_anchor memo) = Some (n, h) \<and> \<not> hashMatches lines h (int n - 1)
              \<and> (\<forall>c \<in> set (probeOrder (int n - 1)). \<not> hashMatches lines h c)))
       \<and> (m_anchorText memo = []
            \<or> (\<forall>x \<in> set lines. \<not> includesStr x (trim (m_anchorText memo))))
      \<longrightarrow> findMemoAnchorLine lines memo = -1)"
proof -
  have none: "machineAnchor lines memo = None"
    if "anchorMatch (m_anchor memo) = None
         \<or> (\<exists>n h. anchorMatch (m_anchor memo) = Some (n, h) \<and> \<not> hashMatches lines h (int n - 1)
              \<and> (\<forall>c \<in> set (probeOrder (int n - 1)). \<not> hashMatches lines h c))"
    using that by (auto simp: machineAnchor_def find_none)
  have 1: "findMemoAnchorLine lines memo = int n - 1"
    if "anchorMatch (m_anchor memo) = Some (n, h)" "hashMatches lines h (int n - 1)"
    using that by (simp add: findMemoAnchorLine_machine machineAnchor_def)
  have 2: "findMemoAnchorLine lines memo = probeOrder (int n - 1) ! k"
    if "anchorMatch (m_anchor memo) = Some (n, h)" "\<not> hashMatches lines h (int n - 1)"
      "k < length (probeOrder (int n - 1))" "hashMatches lines h (probeOrder (int n - 1) ! k)"
      "\<forall>j<k. \<not> hashMatches lines h (probeOrder (int n - 1) ! j)"
    using that find_first [of k "probeOrder (int n - 1)" "hashMatches lines h"]
    by (simp add: findMemoAnchorLine_machine machineAnchor_def)
  have 3: "findMemoAnchorLine lines memo = int i"
    if "machineAnchor lines memo = None" "m_anchorText memo \<noteq> []" "i < length lines"
      "includesStr (lines ! i) (trim (m_anchorText memo))"
      "\<forall>j<i. \<not> includesStr (lines ! j) (trim (m_anchorText memo))"
    using that
      findIndexFrom_first [of i lines "\<lambda>x. includesStr x (trim (m_anchorText memo))" 0]
    by (simp add: findMemoAnchorLine_machine)
  have 4: "findMemoAnchorLine lines memo = -1"
    if "machineAnchor lines memo = None"
      "m_anchorText memo = [] \<or> (\<forall>x \<in> set lines. \<not> includesStr x (trim (m_anchorText memo)))"
    using that
      findIndexFrom_none [of lines "\<lambda>x. includesStr x (trim (m_anchorText memo))" 0]
    by (auto simp: findMemoAnchorLine_machine)
  show ?thesis
    apply (intro conjI impI)
    subgoal using 1 by blast
    subgoal using 2 by blast
    subgoal by (rule probeOrder_explicit)
    subgoal by (elim conjE, rule 3, rule none) assumption+
    subgoal by (elim conjE, rule 4, rule none) assumption+
    done
qed

theorem findMemoAnchorLine_order_witness:
  "findMemoAnchorLine [''a'', ''target''] (anchored ''L2|1d90fd6c'' '''') = 1
   \<and> findMemoAnchorLine [''x'', ''target''] (anchored ''L1:L3|1d90fd6c'' '''') = 1
   \<and> findMemoAnchorLine [''a'', ''see the target here''] (anchored ''nonsense'' '' target '') = 1
   \<and> findMemoAnchorLine [''a'', ''b''] (anchored ''nonsense'' '''') = -1"
proof -
  have hx: "hashLine ''x'' = ''0002b61d''" by (simp add: hashLine_eval)
  have ht: "hashLine ''target'' = ''1d90fd6c''" by (simp add: hashLine_eval)
  have a1: "anchorMatch (m_anchor (anchored ''L2|1d90fd6c'' '''')) = Some (2, ''1d90fd6c'')"
    by (simp add: anchored_def anchorMatch_def isDigit_def isLineTerminator_def parseInt_def
        digitVal_def)
  have a2: "anchorMatch (m_anchor (anchored ''L1:L3|1d90fd6c'' '''')) = Some (1, ''1d90fd6c'')"
    by (simp add: anchored_def anchorMatch_def isDigit_def isLineTerminator_def parseInt_def
        digitVal_def)
  have a3: "anchorMatch (m_anchor (anchored ''nonsense'' '' target '')) = None"
    by (simp add: anchored_def anchorMatch_def)
  have a4: "anchorMatch (m_anchor (anchored ''nonsense'' '''')) = None"
    by (simp add: anchored_def anchorMatch_def)
  have t3: "trim (m_anchorText (anchored ''nonsense'' '' target '')) = ''target''"
    by (simp add: anchored_def trim_def trimStart_def trimEnd_def isSpace_def)
  have e3: "m_anchorText (anchored ''nonsense'' '' target '') \<noteq> []"
    by (simp add: anchored_def)
  have e4: "m_anchorText (anchored ''nonsense'' '''') = []"
    by (simp add: anchored_def)
  have m1: "hashMatches [''a'', ''target''] ''1d90fd6c'' (int 2 - 1)"
    using ht by (simp add: hashMatches_def)
  have m2: "\<not> hashMatches [''x'', ''target''] ''1d90fd6c'' (int 1 - 1)"
    using hx by (simp add: hashMatches_def)
  have p2: "probeOrder (int 1 - 1) ! 1 = 1" "probeOrder (int 1 - 1) ! 0 = -1"
      "(1::nat) < length (probeOrder (int 1 - 1))"
    by (simp_all add: probeOrder_explicit)
  have m2a: "hashMatches [''x'', ''target''] ''1d90fd6c'' (probeOrder (int 1 - 1) ! 1)"
    unfolding p2 using ht by (simp add: hashMatches_def)
  have m2b: "\<forall>j<1. \<not> hashMatches [''x'', ''target''] ''1d90fd6c'' (probeOrder (int 1 - 1) ! j)"
    using p2(2) by (simp add: hashMatches_def)
  have i3: "includesStr ([''a'', ''see the target here''] ! 1)
      (trim (m_anchorText (anchored ''nonsense'' '' target '')))"
    unfolding t3 by (simp add: startsWith_def)
  have n3: "\<forall>j<1. \<not> includesStr ([''a'', ''see the target here''] ! j)
      (trim (m_anchorText (anchored ''nonsense'' '' target '')))"
    unfolding t3 by (simp add: startsWith_def)
  have l3: "1 < length [''a'', ''see the target here'']" by simp
  have w1: "findMemoAnchorLine [''a'', ''target''] (anchored ''L2|1d90fd6c'' '''') = int 2 - 1"
    using findMemoAnchorLine_order [of "anchored ''L2|1d90fd6c'' ''''" 2 "''1d90fd6c''"
        "[''a'', ''target'']", THEN conjunct1] a1 m1
    by blast
  have w2: "findMemoAnchorLine [''x'', ''target''] (anchored ''L1:L3|1d90fd6c'' '''')
      = probeOrder (int 1 - 1) ! 1"
    using findMemoAnchorLine_order [of "anchored ''L1:L3|1d90fd6c'' ''''" 1 "''1d90fd6c''"
        "[''x'', ''target'']" 1, THEN conjunct2, THEN conjunct1] a2 m2 p2(3) m2a m2b
    by blast
  have w3: "findMemoAnchorLine [''a'', ''see the target here''] (anchored ''nonsense'' '' target '')
      = int 1"
    using findMemoAnchorLine_order [of "anchored ''nonsense'' '' target ''" 0 "[]"
        "[''a'', ''see the target here'']" 0 0 1,
        THEN conjunct2, THEN conjunct2, THEN conjunct2, THEN conjunct1] a3 e3 i3 n3 l3
    by blast
  have w4: "findMemoAnchorLine [''a'', ''b''] (anchored ''nonsense'' '''') = -1"
    using findMemoAnchorLine_order [of "anchored ''nonsense'' ''''" 0 "[]" "[''a'', ''b'']" 0 0 0,
        THEN conjunct2, THEN conjunct2, THEN conjunct2, THEN conjunct2] a4 e4
    by blast
  from w1 w2 w3 w4 p2(1) show ?thesis by simp
qed

subsection \<open>C5: anchor stability under insertion\<close>

text \<open>
  C5, as stated, holds for every number \<open>N\<close> of inserted lines. The probe reaches ten
  lines at most: with eleven lines inserted before the anchor line, the anchor
  \<^verbatim>\<open>L1|1d90fd6c\<close> of the line \<^verbatim>\<open>target\<close> is not found (and, with no anchor text, the memo
  is unresolved), although no inserted line has the hash of the anchor line.
\<close>

theorem C5_counterexample:
  "anchorMatch (m_anchor (anchored ''L1|1d90fd6c'' '''')) = Some (1, ''1d90fd6c'')
   \<and> hashLine ''target'' = ''1d90fd6c''
   \<and> hashLine ''x'' \<noteq> ''1d90fd6c''
   \<and> findMemoAnchorLine [''target''] (anchored ''L1|1d90fd6c'' '''') = 0
   \<and> findMemoAnchorLine
        ([''x'', ''x'', ''x'', ''x'', ''x'', ''x'', ''x'', ''x'', ''x'', ''x'', ''x''] @ [''target''])
        (anchored ''L1|1d90fd6c'' '''') = -1"
proof -
  have hx: "hashLine ''x'' = ''0002b61d''" by (simp add: hashLine_eval)
  have ht: "hashLine ''target'' = ''1d90fd6c''" by (simp add: hashLine_eval)
  have a1: "anchorMatch (m_anchor (anchored ''L1|1d90fd6c'' '''')) = Some (1, ''1d90fd6c'')"
    by (simp add: anchored_def anchorMatch_def isDigit_def isLineTerminator_def parseInt_def
        digitVal_def)
  have e: "m_anchorText (anchored ''L1|1d90fd6c'' '''') = []" by (simp add: anchored_def)
  have r0: "findMemoAnchorLine [''target''] (anchored ''L1|1d90fd6c'' '''') = 0"
    using a1 ht by (simp add: findMemoAnchorLine_machine machineAnchor_def hashMatches_def)
  have r1: "findMemoAnchorLine
        ([''x'', ''x'', ''x'', ''x'', ''x'', ''x'', ''x'', ''x'', ''x'', ''x'', ''x''] @ [''target''])
        (anchored ''L1|1d90fd6c'' '''') = -1"
    using a1 hx e
    by (simp add: findMemoAnchorLine_machine machineAnchor_def hashMatches_def probeOrder_explicit)
  from hx ht a1 r0 r1 show ?thesis by simp
qed

text \<open>
  C5 (amended): let the memo's anchor be \<^verbatim>\<open>L<k+1>|h\<close> where \<open>h\<close> is the hash of line \<open>k\<close>
  of the body \<open>pre @ target # post\<close> (\<open>k = length pre\<close>). Insert \<open>N \<le> 10\<close> lines at any
  position before the anchor line. If none of the \<open>2N\<close> lines that now precede the
  anchor line (inserted or not) has the hash \<open>h\<close>, resolution returns the shifted index
  \<open>k + N\<close>: by the exact match when \<open>N = 0\<close>, by the hash probe otherwise.
\<close>

theorem anchor_stable_under_insertion:
  assumes am: "anchorMatch (m_anchor memo) = Some (Suc (length pre), h)"
    and ht: "hashLine target = h"
    and i: "i \<le> length pre"
    and N: "length ins = N" "N \<le> 10"
    and pre': "pre' = take i pre @ ins @ drop i pre"
    and win: "\<forall>x \<in> set (drop (length pre - N) pre'). hashLine x \<noteq> h"
  shows "findMemoAnchorLine (pre @ target # post) memo = int (length pre)
    \<and> findMemoAnchorLine (pre' @ target # post) memo = int (length pre + N)"
proof -
  let ?k = "length pre"
  let ?ls = "pre' @ target # post"
  have len: "length pre' = ?k + N" using i N(1) pre' by simp
  have orig: "hashMatches (pre @ target # post) h (int ?k)"
    using ht by (simp add: hashMatches_def)
  have hit: "hashMatches ?ls h (int ?k + int N)"
    using ht len by (simp add: hashMatches_def nth_append flip: of_nat_add)
  have miss: "\<not> hashMatches ?ls h d" if d: "int ?k - int N \<le> d" "d < int ?k + int N" for d
  proof (cases "d < 0")
    case True
    then show ?thesis by (simp add: hashMatches_def)
  next
    case False
    then have n: "nat d < length pre'" "?k - N \<le> nat d" using d len by auto
    have "drop (?k - N) pre' ! (nat d - (?k - N)) = pre' ! nat d"
      using n by simp
    moreover have "nat d - (?k - N) < length (drop (?k - N) pre')"
      using n by simp
    ultimately have "pre' ! nat d \<in> set (drop (?k - N) pre')"
      by (metis nth_mem)
    with win have "hashLine (pre' ! nat d) \<noteq> h" by blast
    with n(1) show ?thesis by (simp add: hashMatches_def nth_append)
  qed
  have first: "findMemoAnchorLine (pre @ target # post) memo = int ?k"
    using am orig by (simp add: findMemoAnchorLine_machine machineAnchor_def)
  have second: "findMemoAnchorLine ?ls memo = int (?k + N)"
  proof (cases "N = 0")
    case True
    with hit am show ?thesis by (simp add: findMemoAnchorLine_machine machineAnchor_def)
  next
    case False
    then have N1: "1 \<le> N" by simp
    have exact: "\<not> hashMatches ?ls h (int ?k)" using miss [of "int ?k"] N1 by simp
    have near: "\<forall>d. 1 \<le> d \<and> d < N \<longrightarrow>
        \<not> hashMatches ?ls h (int ?k - int d) \<and> \<not> hashMatches ?ls h (int ?k + int d)"
      using miss by simp
    have far: "\<not> hashMatches ?ls h (int ?k - int N)" using miss [of "int ?k - int N"] N1 by simp
    from probe_finds_shifted [OF N1 N(2) near far hit]
    have "find (hashMatches ?ls h) (probeOrder (int ?k)) = Some (int ?k + int N)" .
    with am exact show ?thesis by (simp add: findMemoAnchorLine_machine machineAnchor_def)
  qed
  from first second show ?thesis by simp
qed

theorem anchor_stable_under_insertion_witness:
  "findMemoAnchorLine ([''a''] @ ''target'' # [''z'']) (anchored ''L2|1d90fd6c'' '''') = 1
   \<and> findMemoAnchorLine ([''x'', ''y'', ''a''] @ ''target'' # [''z'']) (anchored ''L2|1d90fd6c'' '''')
       = 3"
proof -
  have hx: "hashLine ''x'' \<noteq> ''1d90fd6c''" by (simp add: hashLine_eval)
  have hy: "hashLine ''y'' \<noteq> ''1d90fd6c''" by (simp add: hashLine_eval)
  have ha: "hashLine ''a'' \<noteq> ''1d90fd6c''" by (simp add: hashLine_eval)
  have ht: "hashLine ''target'' = ''1d90fd6c''" by (simp add: hashLine_eval)
  have am: "anchorMatch (m_anchor (anchored ''L2|1d90fd6c'' '''')) = Some (Suc (length [''a'']), ''1d90fd6c'')"
    by (simp add: anchored_def anchorMatch_def isDigit_def isLineTerminator_def parseInt_def
        digitVal_def)
  have i: "(0::nat) \<le> length [''a'']" by simp
  have N: "length [''x'', ''y''] = 2" "(2::nat) \<le> 10" by simp_all
  have pre': "[''x'', ''y'', ''a''] = take 0 [''a''] @ [''x'', ''y''] @ drop 0 [''a'']" by simp
  have win: "\<forall>x \<in> set (drop (length [''a''] - 2) [''x'', ''y'', ''a'']). hashLine x \<noteq> ''1d90fd6c''"
    using hx hy ha by simp
  from anchor_stable_under_insertion [OF am ht i N pre' win, of "[''z'']"]
  show ?thesis by simp
qed

section \<open>Serializers (document-writer.ts)\<close>

text \<open>\<^verbatim>\<open>s.replace(/"/g, '&quot;')\<close>.\<close>

definition esc :: "string \<Rightarrow> string" where
  \<open>esc s = concat (map (\<lambda>c. if c = DQ then ''&quot;'' else [c]) s)\<close>

text \<open>The template \<^verbatim>\<open>`  key="${value}"`\<close> of one attribute line of a block.\<close>

definition attrLine :: "string \<Rightarrow> string \<Rightarrow> string" where
  \<open>attrLine k v = ''  '' @ k @ ''="'' @ v @ ''"''\<close>

definition serializeMemoV2_lines :: "MemoV2 \<Rightarrow> string list" where
  \<open>serializeMemoV2_lines memo =
     [''<!-- USER_MEMO'',
      attrLine ''id'' (esc (m_id memo)),
      attrLine ''type'' (m_type memo),
      attrLine ''status'' (m_status memo),
      attrLine ''owner'' (m_owner memo),
      attrLine ''source'' (esc (m_source memo)),
      attrLine ''color'' (m_color memo),
      attrLine ''text'' (esc (m_text memo)),
      attrLine ''anchorText'' (esc (m_anchorText memo)),
      attrLine ''anchor'' (esc (m_anchor memo)),
      attrLine ''createdAt'' (m_createdAt memo),
      attrLine ''updatedAt'' (m_updatedAt memo),
      ''-->'']\<close>

definition serializeMemoV2 :: "MemoV2 \<Rightarrow> string" where
  "serializeMemoV2 memo = joinWith [NL] (serializeMemoV2_lines memo)"

definition serializeGate_lines :: "Gate \<Rightarrow> string list" where
  \<open>serializeGate_lines gate =
     [''<!-- GATE'',
      attrLine ''id'' (g_id gate),
      attrLine ''type'' (g_type gate),
      attrLine ''status'' (g_status gate),
      attrLine ''blockedBy'' (joinWith '','' (g_blockedBy gate)),
      attrLine ''canProceedIf'' (esc (g_canProceedIf gate)),
      attrLine ''doneDefinition'' (esc (g_doneDefinition gate)),
      ''-->'']\<close>

definition serializeGate :: "Gate \<Rightarrow> string" where
  "serializeGate gate = joinWith [NL] (serializeGate_lines gate)"

definition serializeCursor_lines :: "PlanCursor \<Rightarrow> string list" where
  \<open>serializeCursor_lines cur =
     [''<!-- PLAN_CURSOR'',
      attrLine ''taskId'' (c_taskId cur),
      attrLine ''step'' (c_step cur),
      attrLine ''nextAction'' (esc (c_nextAction cur)),
      attrLine ''lastSeenHash'' (c_lastSeenHash cur),
      attrLine ''updatedAt'' (c_updatedAt cur),
      ''-->'']\<close>

definition serializeCursor :: "PlanCursor \<Rightarrow> string" where
  "serializeCursor cur = joinWith [NL] (serializeCursor_lines cur)"

text \<open>\<^verbatim>\<open>serializeCheckpoint\<close>. The three counts are written by the template
  (\<^verbatim>\<open>fixes=${cp.fixes}\<close>), that is by \<^verbatim>\<open>String\<close>: the decimal digits for a count below
  \<open>2 ^ 53\<close>, which is the range this definition stands for.\<close>

definition serializeCheckpoint :: "Checkpoint \<Rightarrow> string" where
  \<open>serializeCheckpoint cp =
     ''<!-- CHECKPOINT id="'' @ cp_id cp @ ''" time="'' @ cp_timestamp cp
       @ ''" note="'' @ esc (cp_note cp)
       @ ''" fixes='' @ showNat (cp_fixes cp)
       @ '' questions='' @ showNat (cp_questions cp)
       @ '' highlights='' @ showNat (cp_highlights cp)
       @ '' sections="'' @ joinWith '','' (cp_sectionsReviewed cp) @ ''" -->''\<close>

section \<open>Merger (document-writer.ts, reinsertMemos and mergeDocument)\<close>

text \<open>
  The first loop of \<^verbatim>\<open>reinsertMemos\<close>: one step files a memo under its resolved line in
  \<^verbatim>\<open>insertionMap\<close> (appending to what the line already holds) or appends it to
  \<^verbatim>\<open>unanchored\<close>.
\<close>

definition placeMemo ::
  "string list \<Rightarrow> (int \<rightharpoonup> MemoV2 list) \<times> MemoV2 list \<Rightarrow> MemoV2
     \<Rightarrow> (int \<rightharpoonup> MemoV2 list) \<times> MemoV2 list" where
  "placeMemo lines st memo =
     (case st of (insertionMap, unanchored) \<Rightarrow>
        let lineIdx = findMemoAnchorLine lines memo
        in if lineIdx \<ge> 0 then
             (let existing = (case insertionMap lineIdx of Some e \<Rightarrow> e | None \<Rightarrow> [])
              in (insertionMap(lineIdx \<mapsto> existing @ [memo]), unanchored))
           else (insertionMap, unanchored @ [memo]))"

text \<open>The second and third loops: every line followed by the memos filed under it, then
  the unanchored memos.\<close>

definition emitLines ::
  "string list \<Rightarrow> (int \<rightharpoonup> MemoV2 list) \<times> MemoV2 list \<Rightarrow> string list" where
  "emitLines lines st =
     (case st of (insertionMap, unanchored) \<Rightarrow>
        concat (map (\<lambda>i. lines ! i #
                      (case insertionMap (int i) of
                         Some memosHere \<Rightarrow> map serializeMemoV2 memosHere
                       | None \<Rightarrow> []))
                  [0..<length lines])
        @ map serializeMemoV2 unanchored)"

definition reinsertMemos :: "string \<Rightarrow> MemoV2 list \<Rightarrow> string" where
  "reinsertMemos bd ms =
     (if length ms = 0 then bd
      else let lines = splitOn NL bd
           in joinWith [NL] (emitLines lines (foldl (placeMemo lines) (Map.empty, []) ms)))"

definition mergeSections :: "DocumentParts \<Rightarrow> string list" where
  "mergeSections parts =
     (if frontmatter parts \<noteq> [] then [trimEnd (frontmatter parts)] else [])
     @ [reinsertMemos (body parts) (memos parts)]
     @ map serializeGate (gates parts)
     @ map serializeCheckpoint (checkpoints parts)
     @ (case cursor parts of Some cur \<Rightarrow> [serializeCursor cur] | None \<Rightarrow> [])"

definition mergeDocument :: "DocumentParts \<Rightarrow> string" where
  "mergeDocument parts = joinWith [NL, NL] (mergeSections parts) @ [NL]"

subsection \<open>Helper facts about reinsertion\<close>

definition filed :: "(int \<rightharpoonup> MemoV2 list) \<Rightarrow> int \<Rightarrow> MemoV2 list" where
  "filed insertionMap k = (case insertionMap k of Some e \<Rightarrow> e | None \<Rightarrow> [])"

lemma placeMemo_filed:
  "filed (fst (placeMemo lines (im, un) m)) k =
     filed im k @ (if findMemoAnchorLine lines m = k \<and> k \<ge> 0 then [m] else [])"
  by (auto simp: placeMemo_def filed_def Let_def)

lemma placeMemo_unanchored:
  "snd (placeMemo lines (im, un) m) = un @ (if findMemoAnchorLine lines m \<ge> 0 then [] else [m])"
  by (simp add: placeMemo_def Let_def)

lemma foldl_placeMemo:
  "filed (fst (foldl (placeMemo lines) (im, un) ms)) k =
     filed im k @ filter (\<lambda>m. findMemoAnchorLine lines m = k \<and> k \<ge> 0) ms
   \<and> snd (foldl (placeMemo lines) (im, un) ms) =
     un @ filter (\<lambda>m. \<not> findMemoAnchorLine lines m \<ge> 0) ms"
proof (induction ms arbitrary: im un)
  case Nil
  then show ?case by simp
next
  case (Cons m ms)
  obtain im' un' where st: "placeMemo lines (im, un) m = (im', un')" by (cases "placeMemo lines (im, un) m")
  have f: "filed im' k = filed im k @ (if findMemoAnchorLine lines m = k \<and> k \<ge> 0 then [m] else [])"
    using placeMemo_filed [of lines im un m k] st by simp
  have u: "un' = un @ (if findMemoAnchorLine lines m \<ge> 0 then [] else [m])"
    using placeMemo_unanchored [of lines im un m] st by simp
  show ?case
    using Cons.IH [of im' un'] by (simp add: st f u)
qed

lemma emitLines_filed:
  "emitLines lines (im, un) =
     concat (map (\<lambda>i. lines ! i # map serializeMemoV2 (filed im (int i))) [0..<length lines])
     @ map serializeMemoV2 un"
proof -
  have "(case im (int i) of Some memosHere \<Rightarrow> map serializeMemoV2 memosHere | None \<Rightarrow> [])
      = map serializeMemoV2 (filed im (int i))" for i
    by (simp add: filed_def split: option.splits)
  then show ?thesis by (simp add: emitLines_def)
qed

lemma findIndexFrom_range:
  "findIndexFrom P xs k = -1 \<or> (k \<le> findIndexFrom P xs k \<and> findIndexFrom P xs k < k + int (length xs))"
proof (induction xs arbitrary: k)
  case Nil
  then show ?case by simp
next
  case (Cons x xs)
  from Cons.IH [of "k + 1"] show ?case by auto
qed

lemma findMemoAnchorLine_range:
  "findMemoAnchorLine lines m = -1
   \<or> (0 \<le> findMemoAnchorLine lines m \<and> findMemoAnchorLine lines m < int (length lines))"
proof (cases "machineAnchor lines m")
  case None
  then show ?thesis
    using findIndexFrom_range [of "\<lambda>l. includesStr l (trim (m_anchorText m))" lines 0]
    by (simp add: findMemoAnchorLine_machine)
next
  case (Some d)
  then have "hashMatches lines (snd (the (anchorMatch (m_anchor m)))) d"
    by (auto simp: machineAnchor_def split: option.splits if_splits dest: find_Some_mem)
  then have "0 \<le> d \<and> d < int (length lines)" by (simp add: hashMatches_def)
  with Some show ?thesis by (simp add: findMemoAnchorLine_machine)
qed

lemma mset_concat_append:
  "mset (concat (map (\<lambda>i. A i @ B i) is)) = mset (concat (map A is)) + mset (concat (map B is))"
  by (induction "is") simp_all

lemma mset_concat_single:
  "mset (concat (map (\<lambda>i. if r = int i then [m] else []) [0..<n])) =
     (if 0 \<le> r \<and> r < int n then {#m#} else {#})"
  by (induction n) auto

lemma mset_by_line:
  assumes "\<forall>m \<in> set ms. f m < 0 \<or> (0 \<le> f m \<and> f m < int n)"
  shows "mset (concat (map (\<lambda>i. filter (\<lambda>m. f m = int i) ms) [0..<n]) @ filter (\<lambda>m. f m < 0) ms)
     = mset ms"
  using assms
proof (induction ms)
  case Nil
  have "concat (map (\<lambda>i. []) [0..<n]) = ([] :: 'a list)" by (induction n) simp_all
  then show ?case by simp
next
  case (Cons m ms)
  have split: "(\<lambda>i. filter (\<lambda>x. f x = int i) (m # ms))
      = (\<lambda>i. (if f m = int i then [m] else []) @ filter (\<lambda>x. f x = int i) ms)"
    by auto
  have "mset (concat (map (\<lambda>i. filter (\<lambda>x. f x = int i) (m # ms)) [0..<n]))
      = (if 0 \<le> f m \<and> f m < int n then {#m#} else {#})
        + mset (concat (map (\<lambda>i. filter (\<lambda>x. f x = int i) ms) [0..<n]))"
    unfolding split mset_concat_append mset_concat_single ..
  moreover from Cons.prems have "f m < 0 \<or> (0 \<le> f m \<and> f m < int n)" by simp
  moreover from Cons have "mset (concat (map (\<lambda>i. filter (\<lambda>m. f m = int i) ms) [0..<n])
      @ filter (\<lambda>m. f m < 0) ms) = mset ms" by simp
  ultimately show ?case by auto
qed

lemma reinsertMemos_explicit:
  assumes "ms \<noteq> []"
  shows "reinsertMemos bd ms =
     joinWith [NL]
       (concat (map (\<lambda>i. splitOn NL bd ! i #
                      map serializeMemoV2
                        (filter (\<lambda>m. findMemoAnchorLine (splitOn NL bd) m = int i) ms))
                  [0..<length (splitOn NL bd)])
        @ map serializeMemoV2 (filter (\<lambda>m. findMemoAnchorLine (splitOn NL bd) m < 0) ms))"
proof -
  let ?ls = "splitOn NL bd"
  obtain im un where st: "foldl (placeMemo ?ls) (Map.empty, []) ms = (im, un)"
    by (cases "foldl (placeMemo ?ls) (Map.empty, []) ms")
  have f: "filed im k = filter (\<lambda>m. findMemoAnchorLine ?ls m = k \<and> k \<ge> 0) ms" for k
    using foldl_placeMemo [of ?ls Map.empty "[]" ms k] st by (simp add: filed_def)
  have u: "un = filter (\<lambda>m. findMemoAnchorLine ?ls m < 0) ms"
    using foldl_placeMemo [of ?ls Map.empty "[]" ms 0] st by (simp add: not_le)
  have "emitLines ?ls (im, un) =
      concat (map (\<lambda>i. ?ls ! i # map serializeMemoV2
                (filter (\<lambda>m. findMemoAnchorLine ?ls m = int i) ms)) [0..<length ?ls])
      @ map serializeMemoV2 (filter (\<lambda>m. findMemoAnchorLine ?ls m < 0) ms)"
    unfolding emitLines_filed f u by simp
  with assms st show ?thesis by (simp add: reinsertMemos_def Let_def)
qed

lemma joinWith_last: "xs \<noteq> [] \<Longrightarrow> \<exists>p. joinWith sep xs = p @ last xs"
proof (induction sep xs rule: joinWith.induct)
  case (1 sep)
  then show ?case by simp
next
  case (2 sep x)
  then show ?case by simp
next
  case (3 sep x y ys)
  then obtain p where "joinWith sep (y # ys) = p @ last (y # ys)" by auto
  then have "joinWith sep (x # y # ys) = (x @ sep @ p) @ last (x # y # ys)" by simp
  then show ?case by blast
qed

lemma serializeGate_end: "\<exists>p. serializeGate g = p @ ''-->''"
  using joinWith_last [of "serializeGate_lines g" "[NL]"]
  by (simp add: serializeGate_def serializeGate_lines_def)

lemma serializeCursor_end: "\<exists>p. serializeCursor c = p @ ''-->''"
  using joinWith_last [of "serializeCursor_lines c" "[NL]"]
  by (simp add: serializeCursor_def serializeCursor_lines_def)

lemma serializeMemoV2_end: "\<exists>p. serializeMemoV2 m = p @ ''-->''"
  using joinWith_last [of "serializeMemoV2_lines m" "[NL]"]
  by (simp add: serializeMemoV2_def serializeMemoV2_lines_def)

lemma serializeCheckpoint_end: \<open>\<exists>p. serializeCheckpoint cp = p @ ''-->''\<close>
proof -
  have \<open>serializeCheckpoint cp =
     (''<!-- CHECKPOINT id="'' @ cp_id cp @ ''" time="'' @ cp_timestamp cp
       @ ''" note="'' @ esc (cp_note cp)
       @ ''" fixes='' @ showNat (cp_fixes cp)
       @ '' questions='' @ showNat (cp_questions cp)
       @ '' highlights='' @ showNat (cp_highlights cp)
       @ '' sections="'' @ joinWith '','' (cp_sectionsReviewed cp) @ ''" '') @ ''-->''\<close>
    by (simp add: serializeCheckpoint_def)
  then show ?thesis by blast
qed

lemma mergeSections_last_end:
  assumes "gates parts \<noteq> [] \<or> checkpoints parts \<noteq> [] \<or> cursor parts \<noteq> None"
  shows "\<exists>p. last (mergeSections parts) = p @ ''-->''"
proof (cases "cursor parts")
  case (Some cur)
  then have "last (mergeSections parts) = serializeCursor cur" by (simp add: mergeSections_def)
  then show ?thesis using serializeCursor_end [of cur] by simp
next
  case None
  show ?thesis
  proof (cases "checkpoints parts = []")
    case False
    with None have "last (mergeSections parts) = serializeCheckpoint (last (checkpoints parts))"
      by (simp add: mergeSections_def last_map)
    then show ?thesis using serializeCheckpoint_end [of "last (checkpoints parts)"] by simp
  next
    case True
    with None assms have g: "gates parts \<noteq> []" by simp
    with None True have "last (mergeSections parts) = serializeGate (last (gates parts))"
      by (simp add: mergeSections_def last_map)
    then show ?thesis using serializeGate_end [of "last (gates parts)"] by simp
  qed
qed

lemma mergeSections_nonempty: "mergeSections parts \<noteq> []"
  by (simp add: mergeSections_def)

lemma mergeDocument_suffix: "\<exists>p. mergeDocument parts = p @ last (mergeSections parts) @ [NL]"
  using joinWith_last [of "mergeSections parts" "[NL, NL]"] mergeSections_nonempty [of parts]
  by (auto simp: mergeDocument_def)

subsection \<open>C6: the layout of the merged document\<close>

text \<open>
  C6, as stated, has the document always end with exactly one trailing newline. The
  document is the sections joined by \<^verbatim>\<open>"\n\n"\<close> plus \<^verbatim>\<open>"\n"\<close>, and the body is always a
  section: a bundle with a frontmatter, an empty body and nothing else (what the
  splitter yields for a file that holds only a frontmatter) merges to a document that
  ends with three newlines.
\<close>

theorem C6_counterexample:
  "mergeDocument \<lparr>frontmatter = ''---\<newline>a: 1\<newline>---\<newline>'', body = '''', memos = [],
      checkpoints = [], gates = [], cursor = None, unknownComments = []\<rparr>
   = ''---\<newline>a: 1\<newline>---\<newline>\<newline>\<newline>''"
  by (simp add: mergeDocument_def mergeSections_def reinsertMemos_def trimEnd_def isSpace_def)

text \<open>
  C6 (amended): the merged document is the frontmatter (when present, trimmed at its
  end), then the body with the memos re-inserted, then every gate in bundle order, then
  every checkpoint in bundle order, then the cursor when present, joined by one blank
  line and followed by one newline. With no memo the body is emitted as it is; otherwise
  each body line is followed by the memos that resolve to it, in bundle order, and the
  memos that do not resolve follow the last line, in bundle order; every memo is emitted
  exactly once. The document ends with exactly one newline whenever its last section is
  non-empty and does not itself end with a newline; this is so whenever a gate, a
  checkpoint or the cursor is present (the document then ends with \<^verbatim>\<open>-->\<close> and a newline).
\<close>

theorem mergeDocument_layout:
  "mergeDocument parts = joinWith [NL, NL] (mergeSections parts) @ [NL]
   \<and> mergeSections parts =
       (if frontmatter parts \<noteq> [] then [trimEnd (frontmatter parts)] else [])
       @ [reinsertMemos (body parts) (memos parts)]
       @ map serializeGate (gates parts)
       @ map serializeCheckpoint (checkpoints parts)
       @ (case cursor parts of Some cur \<Rightarrow> [serializeCursor cur] | None \<Rightarrow> [])
   \<and> (memos parts = [] \<longrightarrow> reinsertMemos (body parts) (memos parts) = body parts)
   \<and> (memos parts \<noteq> [] \<longrightarrow>
        reinsertMemos (body parts) (memos parts) =
          joinWith [NL]
            (concat (map (\<lambda>i. splitOn NL (body parts) ! i #
                      map serializeMemoV2
                        (filter (\<lambda>m. findMemoAnchorLine (splitOn NL (body parts)) m = int i)
                           (memos parts)))
                  [0..<length (splitOn NL (body parts))])
             @ map serializeMemoV2
                 (filter (\<lambda>m. findMemoAnchorLine (splitOn NL (body parts)) m < 0) (memos parts))))
   \<and> mset (concat (map (\<lambda>i. filter (\<lambda>m. findMemoAnchorLine (splitOn NL (body parts)) m = int i)
                              (memos parts))
                  [0..<length (splitOn NL (body parts))])
            @ filter (\<lambda>m. findMemoAnchorLine (splitOn NL (body parts)) m < 0) (memos parts))
       = mset (memos parts)
   \<and> (last (mergeSections parts) \<noteq> [] \<and> last (last (mergeSections parts)) \<noteq> NL \<longrightarrow>
        (\<exists>d c. mergeDocument parts = d @ [c, NL] \<and> c \<noteq> NL))
   \<and> (gates parts \<noteq> [] \<or> checkpoints parts \<noteq> [] \<or> cursor parts \<noteq> None \<longrightarrow>
        (\<exists>d. mergeDocument parts = d @ ''-->'' @ [NL]))"
proof (intro conjI impI)
  show "mergeDocument parts = joinWith [NL, NL] (mergeSections parts) @ [NL]"
    by (simp add: mergeDocument_def)
next
  show "mergeSections parts =
       (if frontmatter parts \<noteq> [] then [trimEnd (frontmatter parts)] else [])
       @ [reinsertMemos (body parts) (memos parts)]
       @ map serializeGate (gates parts)
       @ map serializeCheckpoint (checkpoints parts)
       @ (case cursor parts of Some cur \<Rightarrow> [serializeCursor cur] | None \<Rightarrow> [])"
    by (simp add: mergeSections_def)
next
  assume "memos parts = []"
  then show "reinsertMemos (body parts) (memos parts) = body parts"
    by (simp add: reinsertMemos_def)
next
  assume "memos parts \<noteq> []"
  then show "reinsertMemos (body parts) (memos parts) =
          joinWith [NL]
            (concat (map (\<lambda>i. splitOn NL (body parts) ! i #
                      map serializeMemoV2
                        (filter (\<lambda>m. findMemoAnchorLine (splitOn NL (body parts)) m = int i)
                           (memos parts)))
                  [0..<length (splitOn NL (body parts))])
             @ map serializeMemoV2
                 (filter (\<lambda>m. findMemoAnchorLine (splitOn NL (body parts)) m < 0) (memos parts)))"
    by (rule reinsertMemos_explicit)
next
  have "\<forall>m \<in> set (memos parts). findMemoAnchorLine (splitOn NL (body parts)) m < 0
      \<or> (0 \<le> findMemoAnchorLine (splitOn NL (body parts)) m
          \<and> findMemoAnchorLine (splitOn NL (body parts)) m < int (length (splitOn NL (body parts))))"
    using findMemoAnchorLine_range [of "splitOn NL (body parts)"] by force
  then show "mset (concat (map (\<lambda>i. filter (\<lambda>m. findMemoAnchorLine (splitOn NL (body parts)) m = int i)
                              (memos parts))
                  [0..<length (splitOn NL (body parts))])
            @ filter (\<lambda>m. findMemoAnchorLine (splitOn NL (body parts)) m < 0) (memos parts))
       = mset (memos parts)"
    by (rule mset_by_line)
next
  assume a: "last (mergeSections parts) \<noteq> [] \<and> last (last (mergeSections parts)) \<noteq> NL"
  obtain p where p: "mergeDocument parts = p @ last (mergeSections parts) @ [NL]"
    using mergeDocument_suffix by blast
  from a have "last (mergeSections parts)
      = butlast (last (mergeSections parts)) @ [last (last (mergeSections parts))]" by simp
  with p have "mergeDocument parts
      = (p @ butlast (last (mergeSections parts))) @ [last (last (mergeSections parts)), NL]"
    by (metis append.assoc append_Cons append_Nil)
  with a show "\<exists>d c. mergeDocument parts = d @ [c, NL] \<and> c \<noteq> NL" by blast
next
  assume a: "gates parts \<noteq> [] \<or> checkpoints parts \<noteq> [] \<or> cursor parts \<noteq> None"
  obtain p where p: "mergeDocument parts = p @ last (mergeSections parts) @ [NL]"
    using mergeDocument_suffix by blast
  obtain q where "last (mergeSections parts) = q @ ''-->''"
    using mergeSections_last_end [OF a] by blast
  with p have "mergeDocument parts = (p @ q) @ ''-->'' @ [NL]" by simp
  then show "\<exists>d. mergeDocument parts = d @ ''-->'' @ [NL]" by blast
qed

text \<open>A bundle fixture: two body lines, a memo that resolves to the first line by its
  anchor text, a memo without anchors, and one gate.\<close>

definition exampleParts :: DocumentParts where
  "exampleParts = \<lparr>frontmatter = '''', body = ''a\<newline>b'',
     memos = [anchored '''' ''a'', mkMemo ''m2'' ''open''],
     checkpoints = [], gates = [mkGate ''g1'' [''m1'']], cursor = None, unknownComments = []\<rparr>"

theorem mergeDocument_layout_witness:
  "mergeDocument exampleParts =
     joinWith [NL, NL]
       [joinWith [NL] [''a'', serializeMemoV2 (anchored '''' ''a''), ''b'',
                       serializeMemoV2 (mkMemo ''m2'' ''open'')],
        serializeGate (mkGate ''g1'' [''m1''])] @ [NL]
   \<and> (\<exists>d. mergeDocument exampleParts = d @ ''-->'' @ [NL])"
proof -
  have s: "splitOn NL (body exampleParts) = [''a'', ''b'']"
    by (simp add: exampleParts_def)
  have ms: "memos exampleParts = [anchored '''' ''a'', mkMemo ''m2'' ''open'']"
    by (simp add: exampleParts_def)
  have fA: "findMemoAnchorLine [''a'', ''b''] (anchored '''' ''a'') = 0"
    by (simp add: findMemoAnchorLine_def anchored_def mkMemo_def trim_def trimStart_def
        trimEnd_def isSpace_def startsWith_def)
  have fU: "findMemoAnchorLine [''a'', ''b''] (mkMemo ''m2'' ''open'') = -1"
    by (simp add: findMemoAnchorLine_def mkMemo_def)
  note L = mergeDocument_layout [of exampleParts]
  have ne: "memos exampleParts \<noteq> []" by (simp add: ms)
  have g: "gates exampleParts \<noteq> [] \<or> checkpoints exampleParts \<noteq> [] \<or> cursor exampleParts \<noteq> None"
    by (simp add: exampleParts_def)
  from L have "memos exampleParts \<noteq> [] \<longrightarrow>
        reinsertMemos (body exampleParts) (memos exampleParts) =
          joinWith [NL]
            (concat (map (\<lambda>i. splitOn NL (body exampleParts) ! i #
                      map serializeMemoV2
                        (filter (\<lambda>m. findMemoAnchorLine (splitOn NL (body exampleParts)) m = int i)
                           (memos exampleParts)))
                  [0..<length (splitOn NL (body exampleParts))])
             @ map serializeMemoV2
                 (filter (\<lambda>m. findMemoAnchorLine (splitOn NL (body exampleParts)) m < 0)
                    (memos exampleParts)))"
    by (elim conjE)
  with ne have "reinsertMemos (body exampleParts) (memos exampleParts) =
      joinWith [NL] [''a'', serializeMemoV2 (anchored '''' ''a''), ''b'',
                     serializeMemoV2 (mkMemo ''m2'' ''open'')]"
    unfolding s ms by (simp add: fA fU upt_rec)
  moreover from L have "mergeSections exampleParts =
       (if frontmatter exampleParts \<noteq> [] then [trimEnd (frontmatter exampleParts)] else [])
       @ [reinsertMemos (body exampleParts) (memos exampleParts)]
       @ map serializeGate (gates exampleParts)
       @ map serializeCheckpoint (checkpoints exampleParts)
       @ (case cursor exampleParts of Some cur \<Rightarrow> [serializeCursor cur] | None \<Rightarrow> [])"
    by (elim conjE)
  moreover from L have "mergeDocument exampleParts
      = joinWith [NL, NL] (mergeSections exampleParts) @ [NL]"
    by (elim conjE)
  ultimately have 1: "mergeDocument exampleParts =
     joinWith [NL, NL]
       [joinWith [NL] [''a'', serializeMemoV2 (anchored '''' ''a''), ''b'',
                       serializeMemoV2 (mkMemo ''m2'' ''open'')],
        serializeGate (mkGate ''g1'' [''m1''])] @ [NL]"
    by (simp add: exampleParts_def)
  from L g have 2: "\<exists>d. mergeDocument exampleParts = d @ ''-->'' @ [NL]"
    by blast
  from 1 2 show ?thesis by (rule conjI)
qed

section \<open>Comment grammar (document-writer.ts, the regular expressions)\<close>

text \<open>
  Each regular expression of the source is a function on the (trimmed) line. The pieces
  below consume a prefix of the input and return what is left, \<^const>\<open>None\<close> when the piece
  does not match. Every expression used here is deterministic (each greedy run is
  delimited by a character outside its class, each optional group that matches cannot be
  skipped to any effect), so no backtracking is needed unless noted.
\<close>

text \<open>\<^verbatim>\<open>\s+\<close>\<close>

definition ws1 :: "string \<Rightarrow> string option" where
  "ws1 r = (if takeWhile isSpace r = [] then None else Some (dropWhile isSpace r))"

text \<open>\<^verbatim>\<open>([^"]+)"\<close> and \<^verbatim>\<open>([^"]*)"\<close>: the run up to the first double quote and the rest
  after that quote.\<close>

definition quotedStar :: "string \<Rightarrow> (string \<times> string) option" where
  "quotedStar r =
     (case dropWhile (\<lambda>c. c \<noteq> DQ) r of
        [] \<Rightarrow> None
      | q # rest \<Rightarrow> Some (takeWhile (\<lambda>c. c \<noteq> DQ) r, rest))"

definition quotedPlus :: "string \<Rightarrow> (string \<times> string) option" where
  "quotedPlus r = (if takeWhile (\<lambda>c. c \<noteq> DQ) r = [] then None else quotedStar r)"

text \<open>\<^verbatim>\<open>(\d+)\<close>, read with \<^verbatim>\<open>parseInt\<close>.\<close>

definition digits1 :: "string \<Rightarrow> (nat \<times> string) option" where
  "digits1 r =
     (if takeWhile isDigit r = [] then None
      else Some (parseInt (takeWhile isDigit r), dropWhile isDigit r))"

text \<open>\<^verbatim>\<open>(?:\s+NAME="([^"]+)")?\<close>: the captured value (when the group matches) and the
  rest.\<close>

definition optAttr :: "string \<Rightarrow> string \<Rightarrow> string option \<times> string" where
  \<open>optAttr name r =
     (case do { r1 \<leftarrow> ws1 r; r2 \<leftarrow> afterPrefix (name @ ''="'') r1; quotedPlus r2 } of
        None \<Rightarrow> (None, r)
      | Some (v, r3) \<Rightarrow> (Some v, r3))\<close>

text \<open>\<^verbatim>\<open>MEMO_V3_RE =
  /^<!-- USER_MEMO\s+id="([^"]+)"(?:\s+color="([^"]+)")?(?:\s+status="([^"]+)")?\s*:\s*(.*?)\s*-->$/\<close>.
  After the colon the string must end with \<^verbatim>\<open>-->\<close>; the lazy group is what lies between,
  without the white space around it, and it cannot hold a line terminator.\<close>

definition matchMemoV3 :: "string \<Rightarrow> (string \<times> string option \<times> string option \<times> string) option" where
  \<open>matchMemoV3 s =
     do {
       r0 \<leftarrow> afterPrefix ''<!-- USER_MEMO'' s;
       r1 \<leftarrow> ws1 r0;
       r2 \<leftarrow> afterPrefix ''id="'' r1;
       (i, r4) \<leftarrow> quotedPlus r2;
       (case optAttr ''color'' r4 of (color, r5) \<Rightarrow>
        case optAttr ''status'' r5 of (status, r6) \<Rightarrow>
          do {
            r7 \<leftarrow> afterPrefix '':'' (dropWhile isSpace r6);
            (let t = trim (take (length r7 - 3) r7)
             in if endsWith r7 ''-->'' \<and> \<not> list_ex isLineTerminator t
                then Some (i, color, status, t) else None)
          })
     }\<close>

text \<open>\<^verbatim>\<open>/^<!-- USER_MEMO\s*$/\<close>, \<^verbatim>\<open>/^<!-- GATE\s*$/\<close>, \<^verbatim>\<open>/^<!-- PLAN_CURSOR\s*$/\<close>.\<close>

definition matchStart :: "string \<Rightarrow> string \<Rightarrow> bool" where
  "matchStart opener s = (case afterPrefix opener s of None \<Rightarrow> False | Some r \<Rightarrow> list_all isSpace r)"

text \<open>\<^verbatim>\<open>/^-->$/.test(lines[i].trim())\<close> and \<^verbatim>\<open>/^<!-- @\/memo -->$/.test(lines[i].trim())\<close>.\<close>

definition isBlockEnd :: "string \<Rightarrow> bool" where
  "isBlockEnd line \<longleftrightarrow> trim line = ''-->''"

definition isLegacyEnd :: "string \<Rightarrow> bool" where
  "isLegacyEnd line \<longleftrightarrow> trim line = ''<!-- @/memo -->''"

text \<open>\<^verbatim>\<open>CHECKPOINT_RE\<close>: id, time, note, fixes, questions, highlights, sections.\<close>

definition matchCheckpoint ::
  "string \<Rightarrow> (string \<times> string \<times> string \<times> nat \<times> nat \<times> nat \<times> string) option" where
  \<open>matchCheckpoint s =
     do {
       r \<leftarrow> afterPrefix ''<!-- CHECKPOINT'' s;
       r \<leftarrow> ws1 r;
       r \<leftarrow> afterPrefix ''id="'' r;
       (i, r) \<leftarrow> quotedPlus r;
       r \<leftarrow> ws1 r;
       r \<leftarrow> afterPrefix ''time="'' r;
       (t, r) \<leftarrow> quotedPlus r;
       r \<leftarrow> ws1 r;
       r \<leftarrow> afterPrefix ''note="'' r;
       (n, r) \<leftarrow> quotedStar r;
       r \<leftarrow> ws1 r;
       r \<leftarrow> afterPrefix ''fixes='' r;
       (f, r) \<leftarrow> digits1 r;
       r \<leftarrow> ws1 r;
       r \<leftarrow> afterPrefix ''questions='' r;
       (q, r) \<leftarrow> digits1 r;
       r \<leftarrow> ws1 r;
       r \<leftarrow> afterPrefix ''highlights='' r;
       (h, r) \<leftarrow> digits1 r;
       r \<leftarrow> ws1 r;
       r \<leftarrow> afterPrefix ''sections="'' r;
       (sec, r) \<leftarrow> quotedStar r;
       (if r = '' -->'' then Some (i, t, n, f, q, h, sec) else None)
     }\<close>

text \<open>\<^verbatim>\<open>LEGACY_MEMO_START_RE =
  /^<!-- @memo\s+id="([^"]+)"(?:\s+color="([^"]+)")?(?:\s+date="([^"]+)")?\s*-->$/\<close>.\<close>

definition matchLegacyStart :: "string \<Rightarrow> (string \<times> string option \<times> string option) option" where
  \<open>matchLegacyStart s =
     do {
       r0 \<leftarrow> afterPrefix ''<!-- @memo'' s;
       r1 \<leftarrow> ws1 r0;
       r2 \<leftarrow> afterPrefix ''id="'' r1;
       (i, r4) \<leftarrow> quotedPlus r2;
       (case optAttr ''color'' r4 of (color, r5) \<Rightarrow>
        case optAttr ''date'' r5 of (date, r6) \<Rightarrow>
          if dropWhile isSpace r6 = ''-->'' then Some (i, color, date) else None)
     }\<close>

text \<open>\<^verbatim>\<open>l.replace(/^<!--\s*/, '').replace(/\s*-->$/, '')\<close>.\<close>

definition stripCommentDelims :: "string \<Rightarrow> string" where
  "stripCommentDelims l =
     (let l1 = (case afterPrefix ''<!--'' l of Some r \<Rightarrow> dropWhile isSpace r | None \<Rightarrow> l)
      in if endsWith l1 ''-->'' then trimEnd (take (length l1 - 3) l1) else l1)"

text \<open>\<^verbatim>\<open>FEEDBACK_NOTES_RE = /^<!-- \/?(USER_FEEDBACK_NOTES|@\/?feedback-notes)\b.*-->$/\<close>.\<close>

definition optSlash :: "string \<Rightarrow> string" where
  "optSlash r = (case r of [] \<Rightarrow> r | c # q \<Rightarrow> if c = CHR ''/'' then q else r)"

definition matchFeedbackNotes :: "string \<Rightarrow> bool" where
  \<open>matchFeedbackNotes s =
     (case do {
             r \<leftarrow> afterPrefix ''<!-- '' s;
             (case afterPrefix ''USER_FEEDBACK_NOTES'' (optSlash r) of
                Some q \<Rightarrow> Some q
              | None \<Rightarrow> do { r2 \<leftarrow> afterPrefix ''@'' (optSlash r);
                             afterPrefix ''feedback-notes'' (optSlash r2) })
           } of
        None \<Rightarrow> False
      | Some q \<Rightarrow>
          (case q of [] \<Rightarrow> True | c # _ \<Rightarrow> \<not> isWord c)
          \<and> endsWith q ''-->'' \<and> \<not> list_ex isLineTerminator (take (length q - 3) q))\<close>

text \<open>\<^verbatim>\<open>FRONTMATTER_RE = /^---\s*\n([\s\S]*?)\n---\s*\n/\<close>, applied to the whole document.
  This expression does backtrack. \<^verbatim>\<open>\s*\n\<close> can end at any newline of the white space
  run, the longest first (\<open>wsNlEnds\<close>); the lazy group then takes the nearest
  \<^verbatim>\<open>\n---\<close> that is followed by \<^verbatim>\<open>\s*\n\<close> (\<open>closeFrom\<close>). The result is the length of the
  match.\<close>

definition wsNlEnds :: "string \<Rightarrow> nat list" where
  "wsNlEnds r = rev (filter (\<lambda>k. r ! (k - 1) = NL) [1..<Suc (length (takeWhile isSpace r))])"

fun closeFrom :: "string \<Rightarrow> nat option" where
  "closeFrom [] = None"
| "closeFrom (c # cs) =
     (if startsWith (c # cs) [NL, CHR ''-'', CHR ''-'', CHR ''-'']
         \<and> wsNlEnds (drop 4 (c # cs)) \<noteq> []
      then Some (4 + hd (wsNlEnds (drop 4 (c # cs))))
      else map_option Suc (closeFrom cs))"

fun firstSome :: "('a \<Rightarrow> 'b option) \<Rightarrow> 'a list \<Rightarrow> 'b option" where
  "firstSome f [] = None"
| "firstSome f (x # xs) = (case f x of Some y \<Rightarrow> Some y | None \<Rightarrow> firstSome f xs)"

definition matchFrontmatter :: "string \<Rightarrow> nat option" where
  "matchFrontmatter s =
     (case afterPrefix ''---'' s of
        None \<Rightarrow> None
      | Some r \<Rightarrow> firstSome (\<lambda>k. map_option (\<lambda>e. 3 + k + e) (closeFrom (drop k r))) (wsNlEnds r))"

text \<open>\<^verbatim>\<open>parseAttrs\<close>: every line whose trimmed form matches \<^verbatim>\<open>/^(\w+)="([^"]*)"$/\<close> sets a
  key; a later line overrides an earlier one.\<close>

definition matchAttr :: "string \<Rightarrow> (string \<times> string) option" where
  \<open>matchAttr t =
     (if takeWhile isWord t = [] then None
      else do {
        r \<leftarrow> afterPrefix ''="'' (dropWhile isWord t);
        (v, rest) \<leftarrow> quotedStar r;
        (if rest = [] then Some (takeWhile isWord t, v) else None)
      })\<close>

definition parseAttrs :: "string list \<Rightarrow> (string \<rightharpoonup> string)" where
  "parseAttrs lines =
     foldl (\<lambda>attrs line. case matchAttr (trim line) of
                            Some (k, v) \<Rightarrow> attrs(k \<mapsto> v)
                          | None \<Rightarrow> attrs) Map.empty lines"

text \<open>\<^verbatim>\<open>a.key || fallback\<close>: the fallback also replaces an empty string.\<close>

definition orElse :: "string option \<Rightarrow> string \<Rightarrow> string" where
  "orElse x d = (case x of None \<Rightarrow> d | Some v \<Rightarrow> if v = [] then d else v)"

section \<open>Splitter (document-writer.ts, splitDocument)\<close>

text \<open>
  \<^verbatim>\<open>new Date().toISOString()\<close> and \<^verbatim>\<open>Date.now()\<close> are inputs of the model: one reading of
  the clock for a whole call of \<^verbatim>\<open>splitDocument\<close>.
\<close>

record Clock =
  nowIso :: string
  nowMs :: nat

record ScanState =
  s_bodyLines :: "string list"
  s_memos :: "MemoV2 list"
  s_checkpoints :: "Checkpoint list"
  s_gates :: "Gate list"
  s_cursor :: "PlanCursor option"

definition colorToType :: "string \<Rightarrow> string" where
  "colorToType color =
     (if color = ''red'' then ''fix'' else if color = ''blue'' then ''question'' else ''highlight'')"

text \<open>\<^verbatim>\<open>findAnchorAbove\<close> and \<^verbatim>\<open>findAnchorLineIdx\<close>: the nearest line above whose trimmed
  form is non-empty, scanning from the end of \<^verbatim>\<open>bodyLines\<close>.\<close>

definition findAnchorAbove :: "string list \<Rightarrow> string option" where
  "findAnchorAbove bodyLines = map_option trim (find (\<lambda>l. trim l \<noteq> []) (rev bodyLines))"

definition findAnchorLineIdx :: "string list \<Rightarrow> int" where
  "findAnchorLineIdx bodyLines =
     (case find (\<lambda>j. trim (bodyLines ! j) \<noteq> []) (rev [0..<length bodyLines]) of
        Some j \<Rightarrow> int j
      | None \<Rightarrow> -1)"

text \<open>The anchor of a memo read from a dialect without one:
  \<^verbatim>\<open>anchorLine >= 0 ? `L${anchorLine + 1}|${hashLine(bodyLines[anchorLine] || '')}` : ''\<close>.\<close>

definition derivedAnchor :: "string list \<Rightarrow> string" where
  "derivedAnchor bodyLines =
     (let anchorLine = findAnchorLineIdx bodyLines
      in if anchorLine \<ge> 0
         then ''L'' @ showNat (nat anchorLine + 1) @ ''|'' @ hashLine (bodyLines ! nat anchorLine)
         else '''')"

definition memoFromV3 ::
  "Clock \<Rightarrow> string list \<Rightarrow> string \<times> string option \<times> string option \<times> string \<Rightarrow> MemoV2" where
  "memoFromV3 clk bodyLines m =
     (case m of (i, color, status, txt) \<Rightarrow>
        let memoColor = orElse color ''red'';
            memoStatus = orElse status ''open''
        in \<lparr>m_id = i, m_type = colorToType memoColor, m_status = memoStatus,
            m_owner = ''human'', m_source = ''generic'', m_color = memoColor,
            m_text = txt,
            m_anchorText = orElse (findAnchorAbove bodyLines) '''',
            m_anchor = derivedAnchor bodyLines,
            m_createdAt = nowIso clk, m_updatedAt = nowIso clk\<rparr>)"

definition memoFromAttrs :: "Clock \<Rightarrow> string list \<Rightarrow> (string \<rightharpoonup> string) \<Rightarrow> MemoV2" where
  "memoFromAttrs clk bodyLines a =
     \<lparr>m_id = orElse (a ''id'') (''memo_'' @ showNat (nowMs clk)),
      m_type = orElse (a ''type'') (colorToType (orElse (a ''color'') ''red'')),
      m_status = orElse (a ''status'') ''open'',
      m_owner = orElse (a ''owner'') ''human'',
      m_source = orElse (a ''source'') ''generic'',
      m_color = orElse (a ''color'') ''red'',
      m_text = orElse (a ''text'') '''',
      m_anchorText = orElse (a ''anchorText'') (orElse (findAnchorAbove bodyLines) ''''),
      m_anchor = orElse (a ''anchor'') '''',
      m_createdAt = orElse (a ''createdAt'') (nowIso clk),
      m_updatedAt = orElse (a ''updatedAt'') (nowIso clk)\<rparr>"

definition gateFromAttrs :: "Clock \<Rightarrow> (string \<rightharpoonup> string) \<Rightarrow> Gate" where
  "gateFromAttrs clk a =
     \<lparr>g_id = orElse (a ''id'') (''gate_'' @ showNat (nowMs clk)),
      g_type = orElse (a ''type'') ''custom'',
      g_status = orElse (a ''status'') ''blocked'',
      g_blockedBy =
        (if orElse (a ''blockedBy'') '''' \<noteq> ''''
         then filter (\<lambda>s. s \<noteq> []) (map trim (splitOn (CHR '','') (orElse (a ''blockedBy'') '''')))
         else []),
      g_canProceedIf = orElse (a ''canProceedIf'') '''',
      g_doneDefinition = orElse (a ''doneDefinition'') ''''\<rparr>"

definition cursorFromAttrs :: "Clock \<Rightarrow> (string \<rightharpoonup> string) \<Rightarrow> PlanCursor" where
  "cursorFromAttrs clk a =
     \<lparr>c_taskId = orElse (a ''taskId'') '''',
      c_step = orElse (a ''step'') '''',
      c_nextAction = orElse (a ''nextAction'') '''',
      c_lastSeenHash = orElse (a ''lastSeenHash'') '''',
      c_updatedAt = orElse (a ''updatedAt'') (nowIso clk)\<rparr>"

definition checkpointFromMatch ::
  "string \<times> string \<times> string \<times> nat \<times> nat \<times> nat \<times> string \<Rightarrow> Checkpoint" where
  "checkpointFromMatch m =
     (case m of (i, t, n, f, q, h, sec) \<Rightarrow>
        \<lparr>cp_id = i, cp_timestamp = t, cp_note = n, cp_fixes = f, cp_questions = q,
         cp_highlights = h,
         cp_sectionsReviewed = (if sec \<noteq> [] then splitOn (CHR '','') sec else [])\<rparr>)"

definition memoFromLegacy ::
  "Clock \<Rightarrow> string list \<Rightarrow> string \<times> string option \<times> string option \<Rightarrow> string list \<Rightarrow> MemoV2" where
  "memoFromLegacy clk bodyLines m memoLines =
     (case m of (i, color, date) \<Rightarrow>
        \<lparr>m_id = i, m_type = colorToType (orElse color ''red''), m_status = ''open'',
         m_owner = ''human'', m_source = ''generic'', m_color = orElse color ''red'',
         m_text = trim (joinWith [NL] (map stripCommentDelims memoLines)),
         m_anchorText = orElse (findAnchorAbove bodyLines) '''',
         m_anchor = derivedAnchor bodyLines,
         m_createdAt = orElse date (nowIso clk), m_updatedAt = orElse date (nowIso clk)\<rparr>)"

text \<open>
  One iteration of the \<^verbatim>\<open>while (i < lines.length)\<close> loop: \<open>line\<close> is \<^verbatim>\<open>lines[i]\<close> and \<open>rest\<close>
  the lines after it; the result is the lines from the new \<^verbatim>\<open>i\<close> on and the new state.
  A block runs to its closing line or, when there is none, to the end of the document:
  \<^verbatim>\<open>while (i < lines.length && !END.test(lines[i].trim())) { attrLines.push(lines[i]); i++ }; i++\<close>.
\<close>

definition step :: "Clock \<Rightarrow> string \<Rightarrow> string list \<Rightarrow> ScanState \<Rightarrow> string list \<times> ScanState" where
  "step clk line rest st =
     (let trimmed = trim line in
      case matchMemoV3 trimmed of
        Some v3Match \<Rightarrow>
          (rest, st\<lparr>s_memos := s_memos st @ [memoFromV3 clk (s_bodyLines st) v3Match]\<rparr>)
      | None \<Rightarrow>
      if matchStart ''<!-- USER_MEMO'' trimmed then
        (let attrLines = takeWhile (\<lambda>l. \<not> isBlockEnd l) rest
         in (drop 1 (dropWhile (\<lambda>l. \<not> isBlockEnd l) rest),
             st\<lparr>s_memos := s_memos st
                   @ [memoFromAttrs clk (s_bodyLines st) (parseAttrs attrLines)]\<rparr>))
      else if matchStart ''<!-- GATE'' trimmed then
        (let attrLines = takeWhile (\<lambda>l. \<not> isBlockEnd l) rest
         in (drop 1 (dropWhile (\<lambda>l. \<not> isBlockEnd l) rest),
             st\<lparr>s_gates := s_gates st @ [gateFromAttrs clk (parseAttrs attrLines)]\<rparr>))
      else if matchStart ''<!-- PLAN_CURSOR'' trimmed then
        (let attrLines = takeWhile (\<lambda>l. \<not> isBlockEnd l) rest
         in (drop 1 (dropWhile (\<lambda>l. \<not> isBlockEnd l) rest),
             st\<lparr>s_cursor := Some (cursorFromAttrs clk (parseAttrs attrLines))\<rparr>))
      else
      case matchCheckpoint trimmed of
        Some cpMatch \<Rightarrow>
          (rest, st\<lparr>s_checkpoints := s_checkpoints st @ [checkpointFromMatch cpMatch]\<rparr>)
      | None \<Rightarrow>
      case matchLegacyStart trimmed of
        Some legacyMatch \<Rightarrow>
          (let memoLines = takeWhile (\<lambda>l. \<not> isLegacyEnd l) rest
           in (drop 1 (dropWhile (\<lambda>l. \<not> isLegacyEnd l) rest),
               st\<lparr>s_memos := s_memos st
                     @ [memoFromLegacy clk (s_bodyLines st) legacyMatch memoLines]\<rparr>))
      | None \<Rightarrow>
      if trimmed = ''<!--'' \<and> rest \<noteq> [] \<and> includesStr (hd rest) ''MD Feedback'' then
        (drop 1 (dropWhile (\<lambda>l. \<not> includesStr l ''-->'') (line # rest)), st)
      else if matchFeedbackNotes trimmed then (rest, st)
      else (rest, st\<lparr>s_bodyLines := s_bodyLines st @ [line]\<rparr>))"

lemma step_length: "length (fst (step clk line rest st)) \<le> length rest"
proof -
  have c: "length (dropWhile P rest) - Suc 0 \<le> length rest" for P :: "string \<Rightarrow> bool"
    using length_dropWhile_le [of P rest] by arith
  show ?thesis
    unfolding step_def Let_def
    by (simp add: c split: option.split)
qed

function scan :: "Clock \<Rightarrow> string list \<Rightarrow> ScanState \<Rightarrow> ScanState" where
  "scan clk [] st = st"
| "scan clk (line # rest) st = (case step clk line rest st of (rest', st') \<Rightarrow> scan clk rest' st')"
  by pat_completeness auto
termination
  apply (relation "measure (\<lambda>(clk, ls, st). length ls)")
   apply simp
  subgoal for clk line rest st
    using step_length [of clk line rest st] by (simp add: case_prod_unfold)
  done

definition initState :: ScanState where
  "initState = \<lparr>s_bodyLines = [], s_memos = [], s_checkpoints = [], s_gates = [], s_cursor = None\<rparr>"

text \<open>\<^verbatim>\<open>while (bodyLines.length > 0 && bodyLines[bodyLines.length - 1].trim() === '') bodyLines.pop()\<close>.\<close>

definition trimTrailingBlank :: "string list \<Rightarrow> string list" where
  "trimTrailingBlank bodyLines = rev (dropWhile (\<lambda>l. trim l = []) (rev bodyLines))"

definition splitDocument :: "Clock \<Rightarrow> string \<Rightarrow> DocumentParts" where
  "splitDocument clk markdown =
     (let n = (case matchFrontmatter markdown of Some k \<Rightarrow> k | None \<Rightarrow> 0);
          st = scan clk (splitOn NL (drop n markdown)) initState
      in \<lparr>frontmatter = take n markdown,
          body = joinWith [NL] (trimTrailingBlank (s_bodyLines st)),
          memos = s_memos st,
          checkpoints = s_checkpoints st,
          gates = s_gates st,
          cursor = s_cursor st,
          unknownComments = []\<rparr>)"

text \<open>Rule sets for evaluating the model on a concrete document with \<open>simp\<close>.\<close>

lemmas str_eval = isSpace_def isDigit_def isWord_def isLineTerminator_def trimStart_def trimEnd_def
  trim_def startsWith_def endsWith_def afterPrefix_def parseInt_def digitVal_def

lemmas grammar_eval = ws1_def quotedStar_def quotedPlus_def digits1_def optAttr_def matchMemoV3_def
  matchStart_def isBlockEnd_def isLegacyEnd_def matchCheckpoint_def matchLegacyStart_def
  stripCommentDelims_def optSlash_def matchFeedbackNotes_def wsNlEnds_def matchFrontmatter_def
  matchAttr_def parseAttrs_def orElse_def

lemmas split_eval = colorToType_def findAnchorAbove_def findAnchorLineIdx_def derivedAnchor_def
  memoFromV3_def memoFromAttrs_def gateFromAttrs_def cursorFromAttrs_def checkpointFromMatch_def
  memoFromLegacy_def step_def initState_def trimTrailingBlank_def Let_def

definition clk0 :: Clock where
  "clk0 = \<lparr>nowIso = ''2026-01-01T00:00:00.000Z'', nowMs = 1767225600000\<rparr>"

subsection \<open>Helper facts about the scan\<close>

lemma afterPrefix_Some: "afterPrefix p s = Some r \<longleftrightarrow> s = p @ r"
proof
  assume "afterPrefix p s = Some r"
  then have "take (length p) s = p" "r = drop (length p) s"
    by (auto simp: afterPrefix_def startsWith_def split: if_splits)
  then show "s = p @ r" by (metis append_take_drop_id)
next
  assume "s = p @ r"
  then show "afterPrefix p s = Some r" by (simp add: afterPrefix_def startsWith_def)
qed

lemma afterPrefix_append [simp]: "afterPrefix p (p @ r) = Some r"
  by (simp add: afterPrefix_Some)

lemma matchStart_form: "matchStart p t \<longleftrightarrow> (\<exists>r. t = p @ r \<and> list_all isSpace r)"
proof (cases "afterPrefix p t")
  case None
  then have "\<not> (\<exists>r. t = p @ r)" using afterPrefix_Some [of p t] by auto
  with None show ?thesis by (auto simp: matchStart_def)
next
  case (Some r)
  then have "t = p @ r" by (simp add: afterPrefix_Some)
  with Some show ?thesis by (auto simp: matchStart_def)
qed

lemma dropWhile_all: "list_all P xs \<Longrightarrow> dropWhile P xs = []"
  by (induction xs) auto

lemma matchMemoV3_opener:
  assumes "list_all isSpace r"
  shows "matchMemoV3 (''<!-- USER_MEMO'' @ r) = None"
proof -
  have d: "dropWhile isSpace r = []" by (rule dropWhile_all [OF assms])
  have w: "ws1 r = None \<or> ws1 r = Some []" unfolding ws1_def d by simp
  have p: "afterPrefix ''<!-- USER_MEMO'' (''<!-- USER_MEMO'' @ r) = Some r"
    by (rule afterPrefix_append)
  have i: "afterPrefix ''id=\"'' [] = None" by (simp add: afterPrefix_def startsWith_def)
  show ?thesis
    unfolding matchMemoV3_def p using w i by auto
qed

lemma matchMemoV3_needs_prefix:
  "\<not> startsWith t ''<!-- USER_MEMO'' \<Longrightarrow> matchMemoV3 t = None"
  by (simp add: matchMemoV3_def afterPrefix_def)

lemma matchStart_needs_prefix: "\<not> startsWith t p \<Longrightarrow> \<not> matchStart p t"
  by (simp add: matchStart_def afterPrefix_def)

lemma matchCheckpoint_needs_prefix:
  "\<not> startsWith t ''<!-- CHECKPOINT'' \<Longrightarrow> matchCheckpoint t = None"
  by (simp add: matchCheckpoint_def afterPrefix_def)

lemma matchLegacyStart_needs_prefix:
  "\<not> startsWith t ''<!-- @memo'' \<Longrightarrow> matchLegacyStart t = None"
  by (simp add: matchLegacyStart_def afterPrefix_def)

lemma matchLegacyStart_prefix:
  "matchLegacyStart t = Some m \<Longrightarrow> startsWith t ''<!-- @memo''"
  using matchLegacyStart_needs_prefix [of t] by auto

lemma unterminated:
  "\<forall>l \<in> set rest. P l \<Longrightarrow> takeWhile P rest = rest \<and> dropWhile P rest = []"
  by (induction rest) auto

lemma step_memo_opener:
  assumes "matchStart ''<!-- USER_MEMO'' (trim line)"
  shows "step clk line rest st =
     (drop 1 (dropWhile (\<lambda>l. \<not> isBlockEnd l) rest),
      st\<lparr>s_memos := s_memos st
            @ [memoFromAttrs clk (s_bodyLines st)
                 (parseAttrs (takeWhile (\<lambda>l. \<not> isBlockEnd l) rest))]\<rparr>)"
proof -
  from assms obtain r where t: "trim line = ''<!-- USER_MEMO'' @ r" and r: "list_all isSpace r"
    unfolding matchStart_form by blast
  have "matchMemoV3 (trim line) = None" unfolding t by (rule matchMemoV3_opener [OF r])
  with assms show ?thesis by (simp add: step_def Let_def)
qed

lemma step_gate_opener:
  assumes "matchStart ''<!-- GATE'' (trim line)"
  shows "step clk line rest st =
     (drop 1 (dropWhile (\<lambda>l. \<not> isBlockEnd l) rest),
      st\<lparr>s_gates := s_gates st
            @ [gateFromAttrs clk (parseAttrs (takeWhile (\<lambda>l. \<not> isBlockEnd l) rest))]\<rparr>)"
proof -
  from assms obtain r where t: "trim line = ''<!-- GATE'' @ r"
    unfolding matchStart_form by blast
  have n: "\<not> startsWith (trim line) ''<!-- USER_MEMO''"
    unfolding t by (simp add: startsWith_def)
  from assms matchMemoV3_needs_prefix [OF n] matchStart_needs_prefix [OF n]
  show ?thesis by (simp add: step_def Let_def)
qed

lemma step_cursor_opener:
  assumes "matchStart ''<!-- PLAN_CURSOR'' (trim line)"
  shows "step clk line rest st =
     (drop 1 (dropWhile (\<lambda>l. \<not> isBlockEnd l) rest),
      st\<lparr>s_cursor := Some (cursorFromAttrs clk
            (parseAttrs (takeWhile (\<lambda>l. \<not> isBlockEnd l) rest)))\<rparr>)"
proof -
  from assms obtain r where t: "trim line = ''<!-- PLAN_CURSOR'' @ r"
    unfolding matchStart_form by blast
  have n: "\<not> startsWith (trim line) ''<!-- USER_MEMO''"
    unfolding t by (simp add: startsWith_def)
  have g: "\<not> startsWith (trim line) ''<!-- GATE''"
    unfolding t by (simp add: startsWith_def)
  from assms matchMemoV3_needs_prefix [OF n] matchStart_needs_prefix [OF n]
    matchStart_needs_prefix [OF g]
  show ?thesis by (simp add: step_def Let_def)
qed

lemma step_legacy_opener:
  assumes "matchLegacyStart (trim line) = Some m"
  shows "step clk line rest st =
     (drop 1 (dropWhile (\<lambda>l. \<not> isLegacyEnd l) rest),
      st\<lparr>s_memos := s_memos st
            @ [memoFromLegacy clk (s_bodyLines st) m
                 (takeWhile (\<lambda>l. \<not> isLegacyEnd l) rest)]\<rparr>)"
proof -
  from matchLegacyStart_prefix [OF assms]
  have "trim line = ''<!-- @memo'' @ drop (length ''<!-- @memo'') (trim line)"
    unfolding startsWith_def by (metis append_take_drop_id)
  then obtain r where t: "trim line = ''<!-- @memo'' @ r" by blast
  have n: "\<not> startsWith (trim line) ''<!-- USER_MEMO''"
    unfolding t by (simp add: startsWith_def)
  have g: "\<not> startsWith (trim line) ''<!-- GATE''"
    unfolding t by (simp add: startsWith_def)
  have c: "\<not> startsWith (trim line) ''<!-- PLAN_CURSOR''"
    unfolding t by (simp add: startsWith_def)
  have k: "\<not> startsWith (trim line) ''<!-- CHECKPOINT''"
    unfolding t by (simp add: startsWith_def)
  from assms matchMemoV3_needs_prefix [OF n] matchStart_needs_prefix [OF n]
    matchStart_needs_prefix [OF g] matchStart_needs_prefix [OF c]
    matchCheckpoint_needs_prefix [OF k]
  show ?thesis by (simp add: step_def Let_def)
qed

lemma scan_block:
  assumes "step clk line rest st = (drop 1 (dropWhile P rest), st')" "\<forall>l \<in> set rest. P l"
  shows "scan clk (line # rest) st = st'"
  using assms unterminated [OF assms(2)] by simp

lemma gt_in_trim: "CHR ''>'' \<in> set l \<Longrightarrow> CHR ''>'' \<in> set (trim l)"
proof -
  have keep: "c \<in> set xs \<Longrightarrow> \<not> P c \<Longrightarrow> c \<in> set (dropWhile P xs)" for c :: char and xs P
    by (induction xs) auto
  assume "CHR ''>'' \<in> set l"
  then have "CHR ''>'' \<in> set (dropWhile isSpace l)"
    by (rule keep) (simp add: isSpace_def)
  then have "CHR ''>'' \<in> set (rev (dropWhile isSpace l))" by simp
  then have "CHR ''>'' \<in> set (dropWhile isSpace (rev (dropWhile isSpace l)))"
    by (rule keep) (simp add: isSpace_def)
  then show ?thesis by (simp add: trim_def trimEnd_def trimStart_def)
qed

lemma includesStr_set: "includesStr l n \<Longrightarrow> set n \<subseteq> set l"
  by (auto simp: includesStr_iff)

lemma banner_line_open:
  assumes "trim line = ''<!--''"
  shows "\<not> includesStr line ''-->''"
proof
  assume "includesStr line ''-->''"
  then have "CHR ''>'' \<in> set line" using includesStr_set by fastforce
  then have "CHR ''>'' \<in> set (trim line)" by (rule gt_in_trim)
  with assms show False by simp
qed

lemma step_banner:
  assumes "trim line = ''<!--''" "rest \<noteq> []" "includesStr (hd rest) ''MD Feedback''"
  shows "step clk line rest st = (drop 1 (dropWhile (\<lambda>l. \<not> includesStr l ''-->'') rest), st)"
proof -
  have n: "\<not> startsWith (trim line) ''<!-- USER_MEMO''" "\<not> startsWith (trim line) ''<!-- GATE''"
    "\<not> startsWith (trim line) ''<!-- PLAN_CURSOR''" "\<not> startsWith (trim line) ''<!-- CHECKPOINT''"
    "\<not> startsWith (trim line) ''<!-- @memo''"
    unfolding assms(1) by (simp_all add: startsWith_def)
  from assms banner_line_open [OF assms(1)]
    matchMemoV3_needs_prefix [OF n(1)] matchStart_needs_prefix [OF n(1)]
    matchStart_needs_prefix [OF n(2)] matchStart_needs_prefix [OF n(3)]
    matchCheckpoint_needs_prefix [OF n(4)] matchLegacyStart_needs_prefix [OF n(5)]
  show ?thesis by (simp add: step_def Let_def)
qed

lemma splitDocument_eval:
  assumes "matchFrontmatter md = None" "splitOn NL md = ls" "scan clk ls initState = st"
  shows "splitDocument clk md =
     \<lparr>frontmatter = '''', body = joinWith [NL] (trimTrailingBlank (s_bodyLines st)),
      memos = s_memos st, checkpoints = s_checkpoints st, gates = s_gates st,
      cursor = s_cursor st, unknownComments = []\<rparr>"
  using assms by (simp add: splitDocument_def)

subsection \<open>C3: a block whose closing line never comes\<close>

text \<open>
  C3, as stated, has an opener without a closer degrade to body text. The inner loop of
  each block dialect stops at the closing line or at the end of the document, and the
  record is built either way. In the document below the memo block is never closed: the
  two lines after the opener are consumed (the body is \<^verbatim>\<open>Hello\<close> alone) and a memo with
  id \<^verbatim>\<open>m1\<close> is synthesized from them.
\<close>

theorem C3_counterexample:
  \<open>splitDocument clk0 ''Hello\<newline><!-- USER_MEMO\<newline>  id="m1"\<newline>more text''
   = \<lparr>frontmatter = '''', body = ''Hello'',
      memos = [\<lparr>m_id = ''m1'', m_type = ''fix'', m_status = ''open'', m_owner = ''human'',
                 m_source = ''generic'', m_color = ''red'', m_text = '''',
                 m_anchorText = ''Hello'', m_anchor = '''',
                 m_createdAt = ''2026-01-01T00:00:00.000Z'',
                 m_updatedAt = ''2026-01-01T00:00:00.000Z''\<rparr>],
      checkpoints = [], gates = [], cursor = None, unknownComments = []\<rparr>\<close>
proof -
  have f: \<open>matchFrontmatter ''Hello\<newline><!-- USER_MEMO\<newline>  id="m1"\<newline>more text'' = None\<close>
    by (simp add: matchFrontmatter_def afterPrefix_def startsWith_def)
  have l: \<open>splitOn NL ''Hello\<newline><!-- USER_MEMO\<newline>  id="m1"\<newline>more text''
      = [''Hello'', ''<!-- USER_MEMO'', ''  id="m1"'', ''more text'']\<close>
    by simp
  have s: \<open>scan clk0 [''Hello'', ''<!-- USER_MEMO'', ''  id="m1"'', ''more text''] initState
      = \<lparr>s_bodyLines = [''Hello''],
         s_memos = [\<lparr>m_id = ''m1'', m_type = ''fix'', m_status = ''open'', m_owner = ''human'',
                 m_source = ''generic'', m_color = ''red'', m_text = '''',
                 m_anchorText = ''Hello'', m_anchor = '''',
                 m_createdAt = ''2026-01-01T00:00:00.000Z'',
                 m_updatedAt = ''2026-01-01T00:00:00.000Z''\<rparr>],
         s_checkpoints = [], s_gates = [], s_cursor = None\<rparr>\<close>
    by (simp add: str_eval grammar_eval split_eval clk0_def)
  from splitDocument_eval [OF f l s] show ?thesis
    by (simp add: trimTrailingBlank_def str_eval)
qed

text \<open>
  C3 (amended): the scan never throws. When it reaches a line that opens a v0.4 memo
  block, a gate block, a cursor block or a legacy memo block and no later line closes
  the block, every later line of the document is consumed as the content of the block
  (none is added to the body) and one record is still built from those lines, with
  defaults for what they do not give; the body lines and the records collected before
  the opener stay as they are. A banner opener (\<^verbatim>\<open><!--\<close> followed by a line with
  \<^verbatim>\<open>MD Feedback\<close>) without a later \<^verbatim>\<open>-->\<close> discards every later line and builds nothing.
\<close>

theorem unterminated_block_consumed:
  "(matchStart ''<!-- USER_MEMO'' (trim line) \<and> (\<forall>l \<in> set rest. \<not> isBlockEnd l) \<longrightarrow>
      scan clk (line # rest) st =
        st\<lparr>s_memos := s_memos st @ [memoFromAttrs clk (s_bodyLines st) (parseAttrs rest)]\<rparr>)
   \<and> (matchStart ''<!-- GATE'' (trim line) \<and> (\<forall>l \<in> set rest. \<not> isBlockEnd l) \<longrightarrow>
      scan clk (line # rest) st =
        st\<lparr>s_gates := s_gates st @ [gateFromAttrs clk (parseAttrs rest)]\<rparr>)
   \<and> (matchStart ''<!-- PLAN_CURSOR'' (trim line) \<and> (\<forall>l \<in> set rest. \<not> isBlockEnd l) \<longrightarrow>
      scan clk (line # rest) st =
        st\<lparr>s_cursor := Some (cursorFromAttrs clk (parseAttrs rest))\<rparr>)
   \<and> (matchLegacyStart (trim line) = Some m \<and> (\<forall>l \<in> set rest. \<not> isLegacyEnd l) \<longrightarrow>
      scan clk (line # rest) st =
        st\<lparr>s_memos := s_memos st @ [memoFromLegacy clk (s_bodyLines st) m rest]\<rparr>)
   \<and> (trim line = ''<!--'' \<and> rest \<noteq> [] \<and> includesStr (hd rest) ''MD Feedback''
       \<and> (\<forall>l \<in> set rest. \<not> includesStr l ''-->'') \<longrightarrow>
      scan clk (line # rest) st = st)"
proof (intro conjI impI)
  assume a: "matchStart ''<!-- USER_MEMO'' (trim line) \<and> (\<forall>l \<in> set rest. \<not> isBlockEnd l)"
  then have u: "takeWhile (\<lambda>l. \<not> isBlockEnd l) rest = rest" using unterminated by blast
  from a scan_block [OF step_memo_opener [of line clk rest st]]
  show "scan clk (line # rest) st =
        st\<lparr>s_memos := s_memos st @ [memoFromAttrs clk (s_bodyLines st) (parseAttrs rest)]\<rparr>"
    unfolding u by blast
next
  assume a: "matchStart ''<!-- GATE'' (trim line) \<and> (\<forall>l \<in> set rest. \<not> isBlockEnd l)"
  then have u: "takeWhile (\<lambda>l. \<not> isBlockEnd l) rest = rest" using unterminated by blast
  from a scan_block [OF step_gate_opener [of line clk rest st]]
  show "scan clk (line # rest) st =
        st\<lparr>s_gates := s_gates st @ [gateFromAttrs clk (parseAttrs rest)]\<rparr>"
    unfolding u by blast
next
  assume a: "matchStart ''<!-- PLAN_CURSOR'' (trim line) \<and> (\<forall>l \<in> set rest. \<not> isBlockEnd l)"
  then have u: "takeWhile (\<lambda>l. \<not> isBlockEnd l) rest = rest" using unterminated by blast
  from a scan_block [OF step_cursor_opener [of line clk rest st]]
  show "scan clk (line # rest) st =
        st\<lparr>s_cursor := Some (cursorFromAttrs clk (parseAttrs rest))\<rparr>"
    unfolding u by blast
next
  assume a: "matchLegacyStart (trim line) = Some m \<and> (\<forall>l \<in> set rest. \<not> isLegacyEnd l)"
  then have u: "takeWhile (\<lambda>l. \<not> isLegacyEnd l) rest = rest" using unterminated by blast
  from a scan_block [OF step_legacy_opener [of line m clk rest st]]
  show "scan clk (line # rest) st =
        st\<lparr>s_memos := s_memos st @ [memoFromLegacy clk (s_bodyLines st) m rest]\<rparr>"
    unfolding u by blast
next
  assume a: "trim line = ''<!--'' \<and> rest \<noteq> [] \<and> includesStr (hd rest) ''MD Feedback''
       \<and> (\<forall>l \<in> set rest. \<not> includesStr l ''-->'')"
  from a scan_block [OF step_banner [of line rest clk st]]
  show "scan clk (line # rest) st = st"
    by blast
qed

theorem unterminated_block_consumed_witness:
  \<open>scan clk0 (''<!-- USER_MEMO'' # [''  id="m1"'', ''more text'']) (initState\<lparr>s_bodyLines := [''Hello'']\<rparr>)
     = initState\<lparr>s_bodyLines := [''Hello''],
         s_memos := [memoFromAttrs clk0 [''Hello''] (parseAttrs [''  id="m1"'', ''more text''])]\<rparr>
   \<and> m_id (memoFromAttrs clk0 [''Hello''] (parseAttrs [''  id="m1"'', ''more text''])) = ''m1''
   \<and> scan clk0 (''<!-- GATE'' # [''  id="g1"'']) initState
     = initState\<lparr>s_gates := [gateFromAttrs clk0 (parseAttrs [''  id="g1"''])]\<rparr>
   \<and> scan clk0 (''<!-- PLAN_CURSOR'' # [''  step="2"'']) initState
     = initState\<lparr>s_cursor := Some (cursorFromAttrs clk0 (parseAttrs [''  step="2"'']))\<rparr>
   \<and> scan clk0 (''<!-- @memo id="x" -->'' # [''note'']) initState
     = initState\<lparr>s_memos := [memoFromLegacy clk0 [] (''x'', None, None) [''note'']]\<rparr>
   \<and> scan clk0 (''<!--'' # [''  MD Feedback'', ''text'']) initState = initState\<close>
proof -
  have t: "trim ''<!-- USER_MEMO'' = ''<!-- USER_MEMO''" "trim ''<!-- GATE'' = ''<!-- GATE''"
    "trim ''<!-- PLAN_CURSOR'' = ''<!-- PLAN_CURSOR''" "trim ''<!--'' = ''<!--''"
    \<open>trim ''<!-- @memo id="x" -->'' = ''<!-- @memo id="x" -->''\<close>
    by (simp_all add: str_eval)
  have o: "matchStart ''<!-- USER_MEMO'' (trim ''<!-- USER_MEMO'')"
    "matchStart ''<!-- GATE'' (trim ''<!-- GATE'')"
    "matchStart ''<!-- PLAN_CURSOR'' (trim ''<!-- PLAN_CURSOR'')"
    unfolding t by (simp_all add: matchStart_def afterPrefix_def startsWith_def)
  have lg: \<open>matchLegacyStart (trim ''<!-- @memo id="x" -->'') = Some (''x'', None, None)\<close>
    unfolding t by (simp add: str_eval grammar_eval)
  have e1: \<open>\<forall>l \<in> set [''  id="m1"'', ''more text'']. \<not> isBlockEnd l\<close>
    by (simp add: isBlockEnd_def str_eval)
  have e2: \<open>\<forall>l \<in> set [''  id="g1"'']. \<not> isBlockEnd l\<close>
    by (simp add: isBlockEnd_def str_eval)
  have e3: \<open>\<forall>l \<in> set [''  step="2"'']. \<not> isBlockEnd l\<close>
    by (simp add: isBlockEnd_def str_eval)
  have e4: "\<forall>l \<in> set [''note'']. \<not> isLegacyEnd l"
    by (simp add: isLegacyEnd_def str_eval)
  have e5: "[''  MD Feedback'', ''text''] \<noteq> []"
    "includesStr (hd [''  MD Feedback'', ''text'']) ''MD Feedback''"
    "\<forall>l \<in> set [''  MD Feedback'', ''text'']. \<not> includesStr l ''-->''"
    by (simp_all add: startsWith_def)
  have i: \<open>m_id (memoFromAttrs clk0 [''Hello''] (parseAttrs [''  id="m1"'', ''more text''])) = ''m1''\<close>
    by (simp add: memoFromAttrs_def str_eval grammar_eval)
  note T = unterminated_block_consumed
  have w1: \<open>scan clk0 (''<!-- USER_MEMO'' # [''  id="m1"'', ''more text''])
        (initState\<lparr>s_bodyLines := [''Hello'']\<rparr>)
     = initState\<lparr>s_bodyLines := [''Hello''],
         s_memos := [memoFromAttrs clk0 [''Hello''] (parseAttrs [''  id="m1"'', ''more text''])]\<rparr>\<close>
    using T [of "''<!-- USER_MEMO''" _ clk0 "initState\<lparr>s_bodyLines := [''Hello'']\<rparr>", THEN conjunct1]
      o(1) e1 by (simp add: initState_def)
  have w2: \<open>scan clk0 (''<!-- GATE'' # [''  id="g1"'']) initState
     = initState\<lparr>s_gates := [gateFromAttrs clk0 (parseAttrs [''  id="g1"''])]\<rparr>\<close>
    using T [of "''<!-- GATE''" _ clk0 initState, THEN conjunct2, THEN conjunct1]
      o(2) e2 by (simp add: initState_def)
  have w3: \<open>scan clk0 (''<!-- PLAN_CURSOR'' # [''  step="2"'']) initState
     = initState\<lparr>s_cursor := Some (cursorFromAttrs clk0 (parseAttrs [''  step="2"'']))\<rparr>\<close>
    using T [of "''<!-- PLAN_CURSOR''" _ clk0 initState,
        THEN conjunct2, THEN conjunct2, THEN conjunct1]
      o(3) e3 by (simp add: initState_def)
  have w4: \<open>scan clk0 (''<!-- @memo id="x" -->'' # [''note'']) initState
     = initState\<lparr>s_memos := [memoFromLegacy clk0 [] (''x'', None, None) [''note'']]\<rparr>\<close>
    using T [of _ "[''note'']" clk0 initState "(''x'', None, None)",
        THEN conjunct2, THEN conjunct2, THEN conjunct2, THEN conjunct1]
      lg e4 by (simp add: initState_def)
  have w5: "scan clk0 (''<!--'' # [''  MD Feedback'', ''text'']) initState = initState"
    using T [of "''<!--''" "[''  MD Feedback'', ''text'']" clk0 initState,
        THEN conjunct2, THEN conjunct2, THEN conjunct2, THEN conjunct2]
      t(4) e5 by blast
  from w1 i w2 w3 w4 w5 show ?thesis by blast
qed

section \<open>Annotation counter (checkpoint module, getAnnotationCounts)\<close>

record AnnotationCounts =
  ac_fixes :: nat
  ac_questions :: nat
  ac_highlights :: nat

text \<open>\<^verbatim>\<open>HEX_TO_COLOR_NAME[hex]\<close>; \<^const>\<open>None\<close> for a key the table does not hold.\<close>

definition hexToColorName :: "string \<Rightarrow> string option" where
  "hexToColorName hex =
     (if hex = ''#fef08a'' then Some ''yellow''
      else if hex = ''#fca5a5'' then Some ''red''
      else if hex = ''#93c5fd'' then Some ''blue''
      else None)"

text \<open>
  \<^verbatim>\<open>while ((m = re.exec(markdown)) !== null)\<close> for a global expression: the matcher is
  tried at every position from left to right; after a match of length \<open>len\<close> the search
  resumes behind it (\<open>skip\<close> counts the characters still covered by the last match). The
  matcher sees the character before the position, for the lookbehind. No expression below
  matches the empty string.
\<close>

fun scanAll :: "(char option \<Rightarrow> string \<Rightarrow> ('a \<times> nat) option) \<Rightarrow> char option \<Rightarrow> string \<Rightarrow> nat \<Rightarrow> 'a list" where
  "scanAll m prev [] skip = []"
| "scanAll m prev (c # cs) skip =
     (if skip > 0 then scanAll m (Some c) cs (skip - 1)
      else case m prev (c # cs) of
             Some (a, len) \<Rightarrow> a # scanAll m (Some c) cs (len - 1)
           | None \<Rightarrow> scanAll m (Some c) cs 0)"

text \<open>\<^verbatim>\<open>/<!-- USER_MEMO\s+id="[^"]+"(?:\s+color="([^"]+)")?(?:\s+status="[^"]+")?\s*:/g\<close>:
  the captured colour and the length of the match.\<close>

definition matchMemoRe :: "char option \<Rightarrow> string \<Rightarrow> (string option \<times> nat) option" where
  \<open>matchMemoRe prev s =
     do {
       r0 \<leftarrow> afterPrefix ''<!-- USER_MEMO'' s;
       r1 \<leftarrow> ws1 r0;
       r2 \<leftarrow> afterPrefix ''id="'' r1;
       (i, r4) \<leftarrow> quotedPlus r2;
       (case optAttr ''color'' r4 of (color, r5) \<Rightarrow>
        case optAttr ''status'' r5 of (status, r6) \<Rightarrow>
          do {
            r7 \<leftarrow> afterPrefix '':'' (dropWhile isSpace r6);
            Some (color, length s - length r7)
          })
     }\<close>

text \<open>\<^verbatim>\<open>/<mark[^>]*style="background-color:\s*([^"]+)"[^>]*>/g\<close>. The first \<^verbatim>\<open>[^>]*\<close>
  backtracks: the style attribute may start at any offset up to the first \<^verbatim>\<open>>\<close>, the
  largest offset first. The capture is the run up to the closing quote without the
  white space \<^verbatim>\<open>\s*\<close> took (all but its last character when the run is all white space);
  the match ends at the first \<^verbatim>\<open>>\<close> after the closing quote.\<close>

definition markStyle :: "string \<Rightarrow> (string \<times> nat) option" where
  \<open>markStyle t =
     do {
       r1 \<leftarrow> afterPrefix ''style="background-color:'' t;
       (run, r2) \<leftarrow> quotedPlus r1;
       (if CHR ''>'' \<in> set r2
        then Some (if dropWhile isSpace run = [] then [last run] else dropWhile isSpace run,
                   length t - length (dropWhile (\<lambda>c. c \<noteq> CHR ''>'') r2) + 1)
        else None)
     }\<close>

definition matchMarkRe :: "char option \<Rightarrow> string \<Rightarrow> (string \<times> nat) option" where
  "matchMarkRe prev s =
     do {
       r0 \<leftarrow> afterPrefix ''<mark'' s;
       firstSome (\<lambda>j. map_option (\<lambda>(h, n). (h, 5 + j + n)) (markStyle (drop j r0)))
         (rev [0..<Suc (length (takeWhile (\<lambda>c. c \<noteq> CHR ''>'') r0))])
     }"

text \<open>\<^verbatim>\<open>/(?<!`)==(?!.*==.*`)(.+?)==(?!`)/g\<close>. \<open>eqThenTick\<close> is the lookahead
  \<^verbatim>\<open>.*==.*`\<close> on the rest of the line; \<open>lazyClose\<close> is the length of the lazy group: the
  least number (at least one) of characters, none a line terminator, after which
  \<^verbatim>\<open>==\<close> follows with no backtick behind it.\<close>

fun eqThenTick :: "string \<Rightarrow> bool" where
  "eqThenTick [] = False"
| "eqThenTick (c # cs) =
     ((startsWith (c # cs) ''=='' \<and> CHR ''`'' \<in> set (drop 1 cs)) \<or> eqThenTick cs)"

fun lazyClose :: "string \<Rightarrow> nat option" where
  "lazyClose [] = None"
| "lazyClose (c # cs) =
     (if isLineTerminator c then None
      else if startsWith cs ''=='' \<and> (case drop 2 cs of [] \<Rightarrow> True | d # _ \<Rightarrow> d \<noteq> CHR ''`'')
      then Some 1
      else map_option Suc (lazyClose cs))"

definition matchEqRe :: "char option \<Rightarrow> string \<Rightarrow> (unit \<times> nat) option" where
  "matchEqRe prev s =
     (if prev = Some (CHR ''`'') then None
      else case afterPrefix ''=='' s of
             None \<Rightarrow> None
           | Some r \<Rightarrow>
               if eqThenTick (takeWhile (\<lambda>c. \<not> isLineTerminator c) r) then None
               else map_option (\<lambda>k. ((), 2 + k + 2)) (lazyClose r))"

definition getAnnotationCounts :: "string \<Rightarrow> AnnotationCounts" where
  "getAnnotationCounts markdown =
     (let memoColors = map (\<lambda>c. orElse c ''red'') (scanAll matchMemoRe None markdown 0);
          markNames = map (\<lambda>h. hexToColorName (trim h)) (scanAll matchMarkRe None markdown 0);
          eqs = scanAll matchEqRe None markdown 0
      in \<lparr>ac_fixes = length (filter (\<lambda>c. c = ''red'') memoColors)
                   + length (filter (\<lambda>cn. cn = Some ''red'') markNames),
          ac_questions = length (filter (\<lambda>c. c = ''blue'') memoColors)
                   + length (filter (\<lambda>cn. cn = Some ''blue'') markNames),
          ac_highlights = length (filter (\<lambda>c. c \<noteq> ''red'' \<and> c \<noteq> ''blue'') memoColors)
                   + length (filter (\<lambda>cn. cn \<noteq> Some ''red'' \<and> cn \<noteq> Some ''blue'') markNames)
                   + length eqs\<rparr>)"

subsection \<open>C9: highlight markup inside a fenced code block\<close>

text \<open>
  C9: an \<^verbatim>\<open>==text==\<close> inside a fenced code block must not be counted. The counter's
  expression only looks at backticks next to the markers and on the same line; a fence
  on the lines around is not seen. The document below is one fenced code block whose
  only line is \<^verbatim>\<open>==b==\<close>, and the counter reports one highlight. (The sibling
  \<^verbatim>\<open>normalizeHighlights\<close> splits the text at fenced code blocks before it applies the same
  expression.)
\<close>

theorem getAnnotationCounts_fenced:
  "getAnnotationCounts ''```\<newline>==b==\<newline>```'' = \<lparr>ac_fixes = 0, ac_questions = 0, ac_highlights = 1\<rparr>"
proof -
  have m: "scanAll matchMemoRe None ''```\<newline>==b==\<newline>```'' 0 = []"
    by (simp add: matchMemoRe_def afterPrefix_def startsWith_def)
  have k: "scanAll matchMarkRe None ''```\<newline>==b==\<newline>```'' 0 = []"
    by (simp add: matchMarkRe_def afterPrefix_def startsWith_def)
  have e: "scanAll matchEqRe None ''```\<newline>==b==\<newline>```'' 0 = [()]"
    by (simp add: matchEqRe_def afterPrefix_def startsWith_def isLineTerminator_def)
  show ?thesis
    unfolding getAnnotationCounts_def m k e by simp
qed

text \<open>The guard the expression does have: the same markup inside an inline code span is
  not counted, and outside any code it is.\<close>

lemma getAnnotationCounts_inline_code:
  "getAnnotationCounts ''a `==b==` c'' = \<lparr>ac_fixes = 0, ac_questions = 0, ac_highlights = 0\<rparr>"
proof -
  have m: "scanAll matchMemoRe None ''a `==b==` c'' 0 = []"
    by (simp add: matchMemoRe_def afterPrefix_def startsWith_def)
  have k: "scanAll matchMarkRe None ''a `==b==` c'' 0 = []"
    by (simp add: matchMarkRe_def afterPrefix_def startsWith_def)
  have e: "scanAll matchEqRe None ''a `==b==` c'' 0 = []"
    by (simp add: matchEqRe_def afterPrefix_def startsWith_def isLineTerminator_def)
  show ?thesis
    unfolding getAnnotationCounts_def m k e by simp
qed

lemma getAnnotationCounts_plain:
  "getAnnotationCounts ''a ==b== c'' = \<lparr>ac_fixes = 0, ac_questions = 0, ac_highlights = 1\<rparr>"
proof -
  have m: "scanAll matchMemoRe None ''a ==b== c'' 0 = []"
    by (simp add: matchMemoRe_def afterPrefix_def startsWith_def)
  have k: "scanAll matchMarkRe None ''a ==b== c'' 0 = []"
    by (simp add: matchMarkRe_def afterPrefix_def startsWith_def)
  have e: "scanAll matchEqRe None ''a ==b== c'' 0 = [()]"
    by (simp add: matchEqRe_def afterPrefix_def startsWith_def isLineTerminator_def)
  show ?thesis
    unfolding getAnnotationCounts_def m k e by simp
qed

section \<open>Round trip: merge, then split\<close>

subsection \<open>Lines of a joined text\<close>

lemma splitOn_nonempty: "splitOn sep s \<noteq> []"
  by (induction s) (auto split: list.splits)

lemma splitOn_nosep: "sep \<notin> set s \<Longrightarrow> splitOn sep s = [s]"
  by (induction s) auto

lemma splitOn_append_sep: "splitOn sep (a @ sep # b) = splitOn sep a @ splitOn sep b"
proof (induction a)
  case Nil
  then show ?case by simp
next
  case (Cons c a)
  obtain l ls where s: "splitOn sep a = l # ls"
    using splitOn_nonempty [of sep a] by (cases "splitOn sep a") auto
  show ?case
  proof (cases "c = sep")
    case True
    with Cons show ?thesis by simp
  next
    case False
    with Cons s show ?thesis by simp
  qed
qed

lemma splitOn_joinWith_concat:
  "xs \<noteq> [] \<Longrightarrow> splitOn sep (joinWith [sep] xs) = concat (map (splitOn sep) xs)"
proof (induction "[sep]" xs rule: joinWith.induct)
  case 1
  then show ?case by simp
next
  case (2 x)
  then show ?case by simp
next
  case (3 x y ys)
  then show ?case by (simp add: splitOn_append_sep)
qed

lemma splitOn_joinWith:
  assumes "xs \<noteq> []" "\<forall>x \<in> set xs. sep \<notin> set x"
  shows "splitOn sep (joinWith [sep] xs) = xs"
proof -
  have "concat (map (splitOn sep) xs) = xs"
    using assms(2) by (induction xs) (simp_all add: splitOn_nosep)
  with splitOn_joinWith_concat [OF assms(1)] show ?thesis by simp
qed

lemma splitOn_sections:
  "xs \<noteq> [] \<Longrightarrow>
   splitOn NL (joinWith [NL, NL] xs @ [NL]) = concat (map (\<lambda>x. splitOn NL x @ [[]]) xs)"
proof (induction "[NL, NL]" xs rule: joinWith.induct)
  case 1
  then show ?case by simp
next
  case (2 x)
  have "splitOn NL (x @ [NL]) = splitOn NL x @ splitOn NL []"
    by (rule splitOn_append_sep)
  then show ?case by simp
next
  case (3 x y ys)
  have "splitOn NL (x @ NL # NL # joinWith [NL, NL] (y # ys) @ [NL])
      = splitOn NL x @ splitOn NL (NL # joinWith [NL, NL] (y # ys) @ [NL])"
    by (rule splitOn_append_sep)
  also have "splitOn NL (NL # joinWith [NL, NL] (y # ys) @ [NL])
      = [[]] @ splitOn NL (joinWith [NL, NL] (y # ys) @ [NL])"
    using splitOn_append_sep [of NL "[]"] by simp
  finally show ?case using 3 by simp
qed

lemma splitOn_no_sep_in_lines: "l \<in> set (splitOn sep s) \<Longrightarrow> sep \<notin> set l"
proof (induction s arbitrary: l)
  case Nil
  then show ?case by simp
next
  case (Cons c s)
  obtain x xs where s: "splitOn sep s = x # xs"
    using splitOn_nonempty [of sep s] by (cases "splitOn sep s") auto
  show ?case
  proof (cases "c = sep")
    case True
    with Cons show ?thesis by auto
  next
    case False
    with Cons.prems s have "l = c # x \<or> l \<in> set xs" by simp
    with Cons.IH s False show ?thesis by auto
  qed
qed

subsection \<open>Decimal numbers\<close>

lemma digitVal_digitChar: "d < 10 \<Longrightarrow> digitVal (digitChar d) = d"
  by (simp add: digitVal_def digitChar_def)

lemma isDigit_digitChar: "d < 10 \<Longrightarrow> isDigit (digitChar d)"
  by (simp add: isDigit_def digitChar_def)

lemma parseInt_snoc: "parseInt (ds @ [c]) = 10 * parseInt ds + digitVal c"
  by (simp add: parseInt_def)

lemma showNat_props: "parseInt (showNat n) = n \<and> list_all isDigit (showNat n) \<and> showNat n \<noteq> []"
proof (induction n rule: showNat.induct)
  case (1 n)
  show ?case
  proof (cases "n < 10")
    case True
    then show ?thesis
      by (simp add: showNat.simps [of n] parseInt_def digitVal_digitChar isDigit_digitChar)
  next
    case False
    with 1 have ih: "parseInt (showNat (n div 10)) = n div 10"
      "list_all isDigit (showNat (n div 10))" by simp_all
    have "n mod 10 < 10" by simp
    with False ih show ?thesis
      by (simp add: showNat.simps [of n] parseInt_snoc digitVal_digitChar isDigit_digitChar)
  qed
qed

lemma takeWhile_run:
  "list_all P xs \<Longrightarrow> \<not> P y \<Longrightarrow> takeWhile P (xs @ y # ys) = xs \<and> dropWhile P (xs @ y # ys) = y # ys"
  by (induction xs) auto

lemma takeWhile_run_end:
  "list_all P xs \<Longrightarrow> takeWhile P xs = xs \<and> dropWhile P xs = []"
  by (induction xs) auto

lemma digits1_showNat:
  "\<not> isDigit c \<Longrightarrow> digits1 (showNat n @ c # r) = Some (n, c # r)"
  using takeWhile_run [of isDigit "showNat n" c r] showNat_props [of n]
  by (simp add: digits1_def)

subsection \<open>Attribute lines\<close>

text \<open>An attribute value survives a write and a read when it holds no double quote and
  no newline.\<close>

definition safe :: "string \<Rightarrow> bool" where
  "safe s \<longleftrightarrow> DQ \<notin> set s \<and> NL \<notin> set s"

lemma esc_safe: "DQ \<notin> set s \<Longrightarrow> esc s = s"
  by (induction s) (auto simp: esc_def)

lemma trimEnd_keep: "s \<noteq> [] \<Longrightarrow> \<not> isSpace (last s) \<Longrightarrow> trimEnd s = s"
proof -
  assume a: "s \<noteq> []" "\<not> isSpace (last s)"
  then obtain c r where r: "rev s = c # r" by (cases "rev s") auto
  with a have "\<not> isSpace c" by (metis last_rev hd_rev list.sel(1) rev_rev_ident)
  then have "dropWhile isSpace (rev s) = rev s" using r by simp
  then show ?thesis by (simp add: trimEnd_def)
qed

lemma trim_keep: "s \<noteq> [] \<Longrightarrow> \<not> isSpace (hd s) \<Longrightarrow> \<not> isSpace (last s) \<Longrightarrow> trim s = s"
proof -
  assume a: "s \<noteq> []" "\<not> isSpace (hd s)" "\<not> isSpace (last s)"
  then have "dropWhile isSpace s = s" by (cases s) auto
  with a show ?thesis by (simp add: trim_def trimStart_def trimEnd_keep)
qed

lemma trim_attrLine:
  assumes "k \<noteq> []" "\<not> isSpace (hd k)"
  shows \<open>trim (attrLine k v) = k @ ''="'' @ v @ ''"''\<close>
proof -
  have s: \<open>trimStart (attrLine k v) = k @ ''="'' @ v @ ''"''\<close>
    using assms by (cases k) (simp_all add: attrLine_def trimStart_def isSpace_def)
  have \<open>trimEnd (k @ ''="'' @ v @ ''"'') = k @ ''="'' @ v @ ''"''\<close>
    by (rule trimEnd_keep) (simp_all add: isSpace_def)
  with s show ?thesis by (simp add: trim_def)
qed

lemma matchAttr_attrLine:
  assumes "k \<noteq> []" "list_all isWord k" "DQ \<notin> set v"
  shows "matchAttr (trim (attrLine k v)) = Some (k, v)"
proof -
  have sp: "\<not> isSpace (hd k)"
    using assms(1,2) by (cases k) (auto simp: isWord_def isSpace_def isDigit_def)
  have t: \<open>trim (attrLine k v) = k @ CHR ''='' # DQ # v @ [DQ]\<close>
    using trim_attrLine [OF assms(1) sp] by simp
  have w: \<open>takeWhile isWord (k @ CHR ''='' # DQ # v @ [DQ]) = k
      \<and> dropWhile isWord (k @ CHR ''='' # DQ # v @ [DQ]) = CHR ''='' # DQ # v @ [DQ]\<close>
    by (rule takeWhile_run [OF assms(2)]) (simp add: isWord_def isDigit_def)
  have la: "list_all (\<lambda>c. c \<noteq> DQ) v" using assms(3) by (auto simp: list_all_iff)
  have q: "quotedStar (v @ [DQ]) = Some (v, [])"
    using takeWhile_run [OF la, of DQ "[]"] by (simp add: quotedStar_def)
  have a: \<open>afterPrefix ''="'' (CHR ''='' # DQ # v @ [DQ]) = Some (v @ [DQ])\<close>
    by (simp add: afterPrefix_def startsWith_def)
  show ?thesis
    unfolding t matchAttr_def using w assms(1) by (simp add: a q)
qed

lemma attrLine_not_end:
  assumes "k \<noteq> []" "list_all isWord k"
  shows "\<not> isBlockEnd (attrLine k v)"
proof -
  have sp: "\<not> isSpace (hd k)" and d: "hd k \<noteq> CHR ''-''"
    using assms by (cases k; auto simp: isWord_def isSpace_def isDigit_def)+
  have \<open>trim (attrLine k v) = k @ ''="'' @ v @ ''"''\<close>
    by (rule trim_attrLine [OF assms(1) sp])
  with d assms(1) show ?thesis by (cases k) (auto simp: isBlockEnd_def)
qed

text \<open>A list of attribute lines parses to the map of its pairs.\<close>

definition attrPairs :: "(string \<times> string) list \<Rightarrow> bool" where
  "attrPairs kvs \<longleftrightarrow>
     (\<forall>kv \<in> set kvs. fst kv \<noteq> [] \<and> list_all isWord (fst kv) \<and> DQ \<notin> set (snd kv))"

definition attrLines :: "(string \<times> string) list \<Rightarrow> string list" where
  "attrLines kvs = map (\<lambda>kv. attrLine (fst kv) (snd kv)) kvs"

definition attrMap :: "(string \<times> string) list \<Rightarrow> (string \<rightharpoonup> string)" where
  "attrMap kvs = foldl (\<lambda>attrs kv. attrs(fst kv \<mapsto> snd kv)) Map.empty kvs"

lemma parseAttrs_pairs_gen:
  "attrPairs kvs \<Longrightarrow>
   foldl (\<lambda>attrs line. case matchAttr (trim line) of Some (k, v) \<Rightarrow> attrs(k \<mapsto> v) | None \<Rightarrow> attrs)
     acc (attrLines kvs)
   = foldl (\<lambda>attrs kv. attrs(fst kv \<mapsto> snd kv)) acc kvs"
proof (induction kvs arbitrary: acc)
  case Nil
  then show ?case by (simp add: attrLines_def)
next
  case (Cons kv kvs)
  from Cons.prems have p: "fst kv \<noteq> []" "list_all isWord (fst kv)" "DQ \<notin> set (snd kv)"
    and r: "attrPairs kvs"
    by (auto simp: attrPairs_def)
  have m: "matchAttr (trim (attrLine (fst kv) (snd kv))) = Some (fst kv, snd kv)"
    by (rule matchAttr_attrLine [OF p])
  have F: "(case matchAttr (trim (attrLine (fst kv) (snd kv))) of
              Some (k, v) \<Rightarrow> acc(k \<mapsto> v) | None \<Rightarrow> acc) = acc(fst kv \<mapsto> snd kv)"
    unfolding m by (cases kv) simp
  have c: "attrLines (kv # kvs) = attrLine (fst kv) (snd kv) # attrLines kvs"
    by (simp add: attrLines_def)
  show ?case
    by (simp only: c foldl_Cons F Cons.IH [OF r, of "acc(fst kv \<mapsto> snd kv)"])
qed

lemma parseAttrs_pairs: "attrPairs kvs \<Longrightarrow> parseAttrs (attrLines kvs) = attrMap kvs"
  unfolding parseAttrs_def attrMap_def by (rule parseAttrs_pairs_gen)

lemma block_lines_span:
  assumes "attrPairs kvs"
  shows "takeWhile (\<lambda>l. \<not> isBlockEnd l) (attrLines kvs @ ''-->'' # rest) = attrLines kvs
     \<and> dropWhile (\<lambda>l. \<not> isBlockEnd l) (attrLines kvs @ ''-->'' # rest) = ''-->'' # rest"
proof (rule takeWhile_run)
  show "list_all (\<lambda>l. \<not> isBlockEnd l) (attrLines kvs)"
    using assms by (auto simp: attrPairs_def attrLines_def list_all_iff attrLine_not_end)
  show "\<not> \<not> isBlockEnd ''-->''" by (simp add: isBlockEnd_def str_eval)
qed

subsection \<open>Blocks as the serializers write them\<close>

definition memoPairs :: "MemoV2 \<Rightarrow> (string \<times> string) list" where
  "memoPairs memo =
     [(''id'', esc (m_id memo)), (''type'', m_type memo), (''status'', m_status memo),
      (''owner'', m_owner memo), (''source'', esc (m_source memo)), (''color'', m_color memo),
      (''text'', esc (m_text memo)), (''anchorText'', esc (m_anchorText memo)),
      (''anchor'', esc (m_anchor memo)), (''createdAt'', m_createdAt memo),
      (''updatedAt'', m_updatedAt memo)]"

definition gatePairs :: "Gate \<Rightarrow> (string \<times> string) list" where
  "gatePairs gate =
     [(''id'', g_id gate), (''type'', g_type gate), (''status'', g_status gate),
      (''blockedBy'', joinWith '','' (g_blockedBy gate)),
      (''canProceedIf'', esc (g_canProceedIf gate)),
      (''doneDefinition'', esc (g_doneDefinition gate))]"

definition cursorPairs :: "PlanCursor \<Rightarrow> (string \<times> string) list" where
  "cursorPairs cur =
     [(''taskId'', c_taskId cur), (''step'', c_step cur), (''nextAction'', esc (c_nextAction cur)),
      (''lastSeenHash'', c_lastSeenHash cur), (''updatedAt'', c_updatedAt cur)]"

lemma serializeMemoV2_lines_pairs:
  "serializeMemoV2_lines memo = ''<!-- USER_MEMO'' # attrLines (memoPairs memo) @ [''-->'']"
  by (simp add: serializeMemoV2_lines_def attrLines_def memoPairs_def)

lemma serializeGate_lines_pairs:
  "serializeGate_lines gate = ''<!-- GATE'' # attrLines (gatePairs gate) @ [''-->'']"
  by (simp add: serializeGate_lines_def attrLines_def gatePairs_def)

lemma serializeCursor_lines_pairs:
  "serializeCursor_lines cur = ''<!-- PLAN_CURSOR'' # attrLines (cursorPairs cur) @ [''-->'']"
  by (simp add: serializeCursor_lines_def attrLines_def cursorPairs_def)

lemma esc_no_quote: "DQ \<notin> set (esc s)"
  by (induction s) (auto simp: esc_def)

lemma scan_memo_block:
  assumes "attrPairs kvs"
  shows "scan clk (''<!-- USER_MEMO'' # attrLines kvs @ ''-->'' # rest) st =
     scan clk rest (st\<lparr>s_memos := s_memos st @ [memoFromAttrs clk (s_bodyLines st) (attrMap kvs)]\<rparr>)"
proof -
  have o: "matchStart ''<!-- USER_MEMO'' (trim ''<!-- USER_MEMO'')"
    by (simp add: str_eval matchStart_def)
  show ?thesis
    using step_memo_opener [OF o, of clk "attrLines kvs @ ''-->'' # rest" st]
      block_lines_span [OF assms, of rest] parseAttrs_pairs [OF assms]
    by simp
qed

lemma scan_gate_block:
  assumes "attrPairs kvs"
  shows "scan clk (''<!-- GATE'' # attrLines kvs @ ''-->'' # rest) st =
     scan clk rest (st\<lparr>s_gates := s_gates st @ [gateFromAttrs clk (attrMap kvs)]\<rparr>)"
proof -
  have o: "matchStart ''<!-- GATE'' (trim ''<!-- GATE'')"
    by (simp add: str_eval matchStart_def)
  show ?thesis
    using step_gate_opener [OF o, of clk "attrLines kvs @ ''-->'' # rest" st]
      block_lines_span [OF assms, of rest] parseAttrs_pairs [OF assms]
    by simp
qed

lemma scan_cursor_block:
  assumes "attrPairs kvs"
  shows "scan clk (''<!-- PLAN_CURSOR'' # attrLines kvs @ ''-->'' # rest) st =
     scan clk rest (st\<lparr>s_cursor := Some (cursorFromAttrs clk (attrMap kvs))\<rparr>)"
proof -
  have o: "matchStart ''<!-- PLAN_CURSOR'' (trim ''<!-- PLAN_CURSOR'')"
    by (simp add: str_eval matchStart_def)
  show ?thesis
    using step_cursor_opener [OF o, of clk "attrLines kvs @ ''-->'' # rest" st]
      block_lines_span [OF assms, of rest] parseAttrs_pairs [OF assms]
    by simp
qed

subsection \<open>Bundles that survive the round trip\<close>

definition validMemo :: "MemoV2 \<Rightarrow> bool" where
  "validMemo m \<longleftrightarrow>
     safe (m_id m) \<and> safe (m_type m) \<and> safe (m_status m) \<and> safe (m_owner m)
     \<and> safe (m_source m) \<and> safe (m_color m) \<and> safe (m_text m) \<and> safe (m_anchorText m)
     \<and> safe (m_anchor m) \<and> safe (m_createdAt m) \<and> safe (m_updatedAt m)
     \<and> m_id m \<noteq> [] \<and> m_type m \<noteq> [] \<and> m_status m \<noteq> [] \<and> m_owner m \<noteq> []
     \<and> m_source m \<noteq> [] \<and> m_color m \<noteq> [] \<and> m_anchorText m \<noteq> []
     \<and> m_createdAt m \<noteq> [] \<and> m_updatedAt m \<noteq> []"

definition validGate :: "Gate \<Rightarrow> bool" where
  "validGate g \<longleftrightarrow>
     safe (g_id g) \<and> safe (g_type g) \<and> safe (g_status g)
     \<and> safe (g_canProceedIf g) \<and> safe (g_doneDefinition g)
     \<and> g_id g \<noteq> [] \<and> g_type g \<noteq> [] \<and> g_status g \<noteq> []
     \<and> (\<forall>b \<in> set (g_blockedBy g). safe b \<and> b \<noteq> [] \<and> trim b = b \<and> CHR '','' \<notin> set b)"

definition validCursor :: "PlanCursor \<Rightarrow> bool" where
  "validCursor c \<longleftrightarrow>
     safe (c_taskId c) \<and> safe (c_step c) \<and> safe (c_nextAction c) \<and> safe (c_lastSeenHash c)
     \<and> safe (c_updatedAt c) \<and> c_updatedAt c \<noteq> []"

text \<open>The counts of a checkpoint are safe integers (\<^verbatim>\<open>Number.isSafeInteger\<close>, and not
  negative): for them \<^verbatim>\<open>`fixes=${cp.fixes}`\<close> writes decimal digits, which \<^verbatim>\<open>(\d+)\<close> of
  \<^verbatim>\<open>CHECKPOINT_RE\<close> and \<^verbatim>\<open>parseInt\<close> read back exactly. A larger count is written with an
  exponent from \<open>10 ^ 21\<close> on, and the line is then no checkpoint any more.\<close>

definition safeCount :: "nat \<Rightarrow> bool" where
  "safeCount n \<longleftrightarrow> n < 2 ^ 53"

definition validCheckpoint :: "Checkpoint \<Rightarrow> bool" where
  "validCheckpoint cp \<longleftrightarrow>
     safe (cp_id cp) \<and> safe (cp_timestamp cp) \<and> safe (cp_note cp)
     \<and> cp_id cp \<noteq> [] \<and> cp_timestamp cp \<noteq> []
     \<and> safeCount (cp_fixes cp) \<and> safeCount (cp_questions cp) \<and> safeCount (cp_highlights cp)
     \<and> (\<forall>s \<in> set (cp_sectionsReviewed cp). safe s \<and> CHR '','' \<notin> set s)
     \<and> cp_sectionsReviewed cp \<noteq> [[]]"

text \<open>A safe count is below \<open>10 ^ 21\<close>, where \<^verbatim>\<open>String\<close> starts to write an exponent.\<close>

lemma safeCount_plain: "safeCount n \<Longrightarrow> n < 10 ^ 21"
  by (simp add: safeCount_def)

lemma memo_attrPairs: "validMemo m \<Longrightarrow> attrPairs (memoPairs m)"
  by (simp add: validMemo_def safe_def attrPairs_def memoPairs_def esc_no_quote isWord_def isDigit_def)

lemma orElse_Some: "orElse (Some v) d = (if v = [] then d else v)"
  by (simp add: orElse_def)

lemma memo_readback:
  assumes "validMemo m"
  shows "memoFromAttrs clk bl (attrMap (memoPairs m)) = m"
proof -
  from assms have e: "esc (m_id m) = m_id m" "esc (m_source m) = m_source m"
    "esc (m_text m) = m_text m" "esc (m_anchorText m) = m_anchorText m"
    "esc (m_anchor m) = m_anchor m"
    by (simp_all add: validMemo_def safe_def esc_safe)
  from assms have n: "m_id m \<noteq> []" "m_type m \<noteq> []" "m_status m \<noteq> []" "m_owner m \<noteq> []"
    "m_source m \<noteq> []" "m_color m \<noteq> []" "m_anchorText m \<noteq> []"
    "m_createdAt m \<noteq> []" "m_updatedAt m \<noteq> []"
    by (simp_all add: validMemo_def)
  have a: "attrMap (memoPairs m) ''id'' = Some (m_id m)"
    "attrMap (memoPairs m) ''type'' = Some (m_type m)"
    "attrMap (memoPairs m) ''status'' = Some (m_status m)"
    "attrMap (memoPairs m) ''owner'' = Some (m_owner m)"
    "attrMap (memoPairs m) ''source'' = Some (m_source m)"
    "attrMap (memoPairs m) ''color'' = Some (m_color m)"
    "attrMap (memoPairs m) ''text'' = Some (m_text m)"
    "attrMap (memoPairs m) ''anchorText'' = Some (m_anchorText m)"
    "attrMap (memoPairs m) ''anchor'' = Some (m_anchor m)"
    "attrMap (memoPairs m) ''createdAt'' = Some (m_createdAt m)"
    "attrMap (memoPairs m) ''updatedAt'' = Some (m_updatedAt m)"
    by (simp_all add: attrMap_def memoPairs_def e)
  show ?thesis
    unfolding memoFromAttrs_def a orElse_Some using n by simp
qed

lemma quotedStar_run: "DQ \<notin> set v \<Longrightarrow> quotedStar (v @ DQ # r) = Some (v, r)"
proof -
  assume "DQ \<notin> set v"
  then have "list_all (\<lambda>c. c \<noteq> DQ) v" by (auto simp: list_all_iff)
  from takeWhile_run [OF this, of DQ r] show ?thesis by (simp add: quotedStar_def)
qed

lemma quotedPlus_run: "DQ \<notin> set v \<Longrightarrow> v \<noteq> [] \<Longrightarrow> quotedPlus (v @ DQ # r) = Some (v, r)"
proof -
  assume a: "DQ \<notin> set v" "v \<noteq> []"
  then have "list_all (\<lambda>c. c \<noteq> DQ) v" by (auto simp: list_all_iff)
  from takeWhile_run [OF this, of DQ r] a quotedStar_run [OF a(1), of r]
  show ?thesis by (simp add: quotedPlus_def)
qed

lemma joinWith_nonempty: "xs \<noteq> [] \<Longrightarrow> xs \<noteq> [[]] \<Longrightarrow> joinWith [c] xs \<noteq> []"
  by (induction "[c]" xs rule: joinWith.induct) auto

lemma joinWith_set:
  "set (joinWith sep xs) \<subseteq> set sep \<union> \<Union> (set ` set xs)"
  by (induction sep xs rule: joinWith.induct) auto

lemma blockedBy_readback:
  assumes "\<forall>b \<in> set bs. b \<noteq> [] \<and> trim b = b \<and> CHR '','' \<notin> set b"
  shows "(if orElse (Some (joinWith '','' bs)) '''' \<noteq> ''''
          then filter (\<lambda>s. s \<noteq> []) (map trim (splitOn (CHR '','') (orElse (Some (joinWith '','' bs)) '''')))
          else []) = bs"
proof (cases "bs = []")
  case True
  then show ?thesis by (simp add: orElse_def)
next
  case False
  with assms have "bs \<noteq> [[]]" by auto
  with False have ne: "joinWith '','' bs \<noteq> []" by (rule joinWith_nonempty)
  have s: "splitOn (CHR '','') (joinWith '','' bs) = bs"
    using assms False by (intro splitOn_joinWith) auto
  have t: "map trim bs = bs" using assms by (induction bs) auto
  have f: "filter (\<lambda>s. s \<noteq> []) bs = bs" using assms by (induction bs) auto
  from ne show ?thesis by (simp add: orElse_def s t f)
qed

lemma gate_attrPairs: "validGate g \<Longrightarrow> attrPairs (gatePairs g)"
proof -
  assume v: "validGate g"
  have "set (joinWith '','' (g_blockedBy g)) \<subseteq> set '','' \<union> \<Union> (set ` set (g_blockedBy g))"
    by (rule joinWith_set)
  with v have "DQ \<notin> set (joinWith '','' (g_blockedBy g))"
    by (auto simp: validGate_def safe_def)
  with v show ?thesis
    by (simp add: validGate_def safe_def attrPairs_def gatePairs_def esc_no_quote isWord_def
        isDigit_def)
qed

lemma gate_readback:
  assumes "validGate g"
  shows "gateFromAttrs clk (attrMap (gatePairs g)) = g"
proof -
  from assms have e: "esc (g_canProceedIf g) = g_canProceedIf g"
    "esc (g_doneDefinition g) = g_doneDefinition g"
    by (simp_all add: validGate_def safe_def esc_safe)
  from assms have n: "g_id g \<noteq> []" "g_type g \<noteq> []" "g_status g \<noteq> []"
    by (simp_all add: validGate_def)
  from assms have b: "\<forall>b \<in> set (g_blockedBy g). b \<noteq> [] \<and> trim b = b \<and> CHR '','' \<notin> set b"
    by (simp add: validGate_def)
  have a: "attrMap (gatePairs g) ''id'' = Some (g_id g)"
    "attrMap (gatePairs g) ''type'' = Some (g_type g)"
    "attrMap (gatePairs g) ''status'' = Some (g_status g)"
    "attrMap (gatePairs g) ''blockedBy'' = Some (joinWith '','' (g_blockedBy g))"
    "attrMap (gatePairs g) ''canProceedIf'' = Some (g_canProceedIf g)"
    "attrMap (gatePairs g) ''doneDefinition'' = Some (g_doneDefinition g)"
    by (simp_all add: attrMap_def gatePairs_def e)
  show ?thesis
    unfolding gateFromAttrs_def a blockedBy_readback [OF b]
    using n by (simp add: orElse_Some)
qed

lemma cursor_attrPairs: "validCursor c \<Longrightarrow> attrPairs (cursorPairs c)"
  by (simp add: validCursor_def safe_def attrPairs_def cursorPairs_def esc_no_quote isWord_def
      isDigit_def)

lemma cursor_readback:
  assumes "validCursor c"
  shows "cursorFromAttrs clk (attrMap (cursorPairs c)) = c"
proof -
  from assms have e: "esc (c_nextAction c) = c_nextAction c"
    by (simp add: validCursor_def safe_def esc_safe)
  from assms have n: "c_updatedAt c \<noteq> []" by (simp add: validCursor_def)
  have a: "attrMap (cursorPairs c) ''taskId'' = Some (c_taskId c)"
    "attrMap (cursorPairs c) ''step'' = Some (c_step c)"
    "attrMap (cursorPairs c) ''nextAction'' = Some (c_nextAction c)"
    "attrMap (cursorPairs c) ''lastSeenHash'' = Some (c_lastSeenHash c)"
    "attrMap (cursorPairs c) ''updatedAt'' = Some (c_updatedAt c)"
    by (simp_all add: attrMap_def cursorPairs_def e)
  show ?thesis
    unfolding cursorFromAttrs_def a using n by (simp add: orElse_Some)
qed

lemma matchCheckpoint_serialized:
  assumes "DQ \<notin> set i" "i \<noteq> []" "DQ \<notin> set t" "t \<noteq> []" "DQ \<notin> set n" "DQ \<notin> set sec"
  shows \<open>matchCheckpoint
     (''<!-- CHECKPOINT id="'' @ i @ ''" time="'' @ t @ ''" note="'' @ n
       @ ''" fixes='' @ showNat f @ '' questions='' @ showNat q
       @ '' highlights='' @ showNat h @ '' sections="'' @ sec @ ''" -->'')
     = Some (i, t, n, f, q, h, sec)\<close>
  unfolding matchCheckpoint_def
  using assms
  by (simp add: afterPrefix_def startsWith_def ws1_def isSpace_def quotedPlus_run quotedStar_run
      digits1_showNat isDigit_def)

lemma sections_readback:
  assumes "\<forall>s \<in> set ss. CHR '','' \<notin> set s" "ss \<noteq> [[]]"
  shows "(if joinWith '','' ss \<noteq> [] then splitOn (CHR '','') (joinWith '','' ss) else []) = ss"
proof (cases "ss = []")
  case True
  then show ?thesis by simp
next
  case False
  from False assms(2) have "joinWith '','' ss \<noteq> []" by (rule joinWith_nonempty)
  moreover have "splitOn (CHR '','') (joinWith '','' ss) = ss"
    using assms(1) False by (intro splitOn_joinWith) auto
  ultimately show ?thesis by simp
qed

lemma serializeCheckpoint_trim: "trim (serializeCheckpoint cp) = serializeCheckpoint cp"
  by (rule trim_keep) (simp_all add: serializeCheckpoint_def isSpace_def)

lemma step_checkpoint:
  assumes "validCheckpoint cp"
  shows "step clk (serializeCheckpoint cp) rest st =
     (rest, st\<lparr>s_checkpoints := s_checkpoints st @ [cp]\<rparr>)"
proof -
  let ?s = "serializeCheckpoint cp"
  have n: "\<not> startsWith ?s ''<!-- USER_MEMO''" "\<not> startsWith ?s ''<!-- GATE''"
    "\<not> startsWith ?s ''<!-- PLAN_CURSOR''"
    by (simp_all add: serializeCheckpoint_def startsWith_def)
  have "set (joinWith '','' (cp_sectionsReviewed cp))
      \<subseteq> set '','' \<union> \<Union> (set ` set (cp_sectionsReviewed cp))"
    by (rule joinWith_set)
  with assms have q: "DQ \<notin> set (joinWith '','' (cp_sectionsReviewed cp))"
    by (auto simp: validCheckpoint_def safe_def)
  from assms have v: "DQ \<notin> set (cp_id cp)" "cp_id cp \<noteq> []" "DQ \<notin> set (cp_timestamp cp)"
    "cp_timestamp cp \<noteq> []" "DQ \<notin> set (esc (cp_note cp))"
    by (simp_all add: validCheckpoint_def safe_def esc_no_quote)
  have m: "matchCheckpoint ?s =
      Some (cp_id cp, cp_timestamp cp, esc (cp_note cp), cp_fixes cp, cp_questions cp,
            cp_highlights cp, joinWith '','' (cp_sectionsReviewed cp))"
    unfolding serializeCheckpoint_def by (rule matchCheckpoint_serialized [OF v q])
  from assms have e: "esc (cp_note cp) = cp_note cp"
    by (simp add: validCheckpoint_def safe_def esc_safe)
  from assms have "\<forall>s \<in> set (cp_sectionsReviewed cp). CHR '','' \<notin> set s"
    "cp_sectionsReviewed cp \<noteq> [[]]"
    by (simp_all add: validCheckpoint_def)
  from sections_readback [OF this]
  have c: "checkpointFromMatch (cp_id cp, cp_timestamp cp, esc (cp_note cp), cp_fixes cp,
      cp_questions cp, cp_highlights cp, joinWith '','' (cp_sectionsReviewed cp)) = cp"
    by (simp add: checkpointFromMatch_def e)
  show ?thesis
    unfolding step_def Let_def serializeCheckpoint_trim
    using matchMemoV3_needs_prefix [OF n(1)] matchStart_needs_prefix [OF n(1)]
      matchStart_needs_prefix [OF n(2)] matchStart_needs_prefix [OF n(3)]
    by (simp add: m c)
qed

text \<open>A line the scan keeps as body text, whatever follows it.\<close>

definition plainLine :: "string \<Rightarrow> bool" where
  "plainLine l \<longleftrightarrow>
     matchMemoV3 (trim l) = None
     \<and> \<not> matchStart ''<!-- USER_MEMO'' (trim l)
     \<and> \<not> matchStart ''<!-- GATE'' (trim l)
     \<and> \<not> matchStart ''<!-- PLAN_CURSOR'' (trim l)
     \<and> matchCheckpoint (trim l) = None
     \<and> matchLegacyStart (trim l) = None
     \<and> trim l \<noteq> ''<!--''
     \<and> \<not> matchFeedbackNotes (trim l)"

lemma step_plain:
  "plainLine l \<Longrightarrow> step clk l rest st = (rest, st\<lparr>s_bodyLines := s_bodyLines st @ [l]\<rparr>)"
  by (simp add: plainLine_def step_def Let_def)

lemma plainLine_empty: "plainLine ''''"
  by (simp add: plainLine_def str_eval grammar_eval)

lemma plainLine_needs_no_comment:
  "\<not> startsWith (trim l) ''<!--'' \<Longrightarrow> plainLine l"
proof -
  assume a: "\<not> startsWith (trim l) ''<!--''"
  have p: "\<not> startsWith (trim l) (''<!--'' @ r)" for r
  proof
    assume "startsWith (trim l) (''<!--'' @ r)"
    then have "take (length (''<!--'' @ r)) (trim l) = ''<!--'' @ r" by (simp only: startsWith_def)
    then have "take 4 (take (length (''<!--'' @ r)) (trim l)) = take 4 (''<!--'' @ r)" by simp
    then have "take 4 (trim l) = ''<!--''" by (simp add: min_def)
    with a show False by (simp add: startsWith_def eval_nat_numeral)
  qed
  have "\<not> startsWith (trim l) ''<!-- USER_MEMO''" "\<not> startsWith (trim l) ''<!-- GATE''"
    "\<not> startsWith (trim l) ''<!-- PLAN_CURSOR''" "\<not> startsWith (trim l) ''<!-- CHECKPOINT''"
    "\<not> startsWith (trim l) ''<!-- @memo''" "\<not> startsWith (trim l) ''<!-- ''"
    using p [of "'' USER_MEMO''"] p [of "'' GATE''"] p [of "'' PLAN_CURSOR''"]
      p [of "'' CHECKPOINT''"] p [of "'' @memo''"] p [of "'' ''"]
    by simp_all
  moreover have "trim l \<noteq> ''<!--''" using a by (auto simp: startsWith_def)
  ultimately show ?thesis
    by (simp add: plainLine_def matchMemoV3_needs_prefix matchStart_needs_prefix
        matchCheckpoint_needs_prefix matchLegacyStart_needs_prefix matchFeedbackNotes_def
        afterPrefix_def)
qed

subsection \<open>The merged document as a sequence of items\<close>

datatype Item = IBody string | IMemo MemoV2 | IGate Gate | ICheckpoint Checkpoint | ICursor PlanCursor

fun itemLines :: "Item \<Rightarrow> string list" where
  "itemLines (IBody l) = [l]"
| "itemLines (IMemo m) = serializeMemoV2_lines m"
| "itemLines (IGate g) = serializeGate_lines g"
| "itemLines (ICheckpoint cp) = [serializeCheckpoint cp]"
| "itemLines (ICursor c) = serializeCursor_lines c"

fun validItem :: "Item \<Rightarrow> bool" where
  "validItem (IBody l) = plainLine l"
| "validItem (IMemo m) = validMemo m"
| "validItem (IGate g) = validGate g"
| "validItem (ICheckpoint cp) = validCheckpoint cp"
| "validItem (ICursor c) = validCursor c"

fun applyItem :: "ScanState \<Rightarrow> Item \<Rightarrow> ScanState" where
  "applyItem st (IBody l) = st\<lparr>s_bodyLines := s_bodyLines st @ [l]\<rparr>"
| "applyItem st (IMemo m) = st\<lparr>s_memos := s_memos st @ [m]\<rparr>"
| "applyItem st (IGate g) = st\<lparr>s_gates := s_gates st @ [g]\<rparr>"
| "applyItem st (ICheckpoint cp) = st\<lparr>s_checkpoints := s_checkpoints st @ [cp]\<rparr>"
| "applyItem st (ICursor c) = st\<lparr>s_cursor := Some c\<rparr>"

lemma scan_item:
  assumes "validItem it"
  shows "scan clk (itemLines it @ rest) st = scan clk rest (applyItem st it)"
proof (cases it)
  case (IBody l)
  with assms show ?thesis by (simp add: step_plain)
next
  case (IMemo m)
  with assms have v: "validMemo m" by simp
  show ?thesis
    using scan_memo_block [OF memo_attrPairs [OF v], of clk rest st]
    by (simp add: IMemo serializeMemoV2_lines_pairs memo_readback [OF v])
next
  case (IGate g)
  with assms have v: "validGate g" by simp
  show ?thesis
    using scan_gate_block [OF gate_attrPairs [OF v], of clk rest st]
    by (simp add: IGate serializeGate_lines_pairs gate_readback [OF v])
next
  case (ICheckpoint cp)
  with assms show ?thesis by (simp add: step_checkpoint)
next
  case (ICursor c)
  with assms have v: "validCursor c" by simp
  show ?thesis
    using scan_cursor_block [OF cursor_attrPairs [OF v], of clk rest st]
    by (simp add: ICursor serializeCursor_lines_pairs cursor_readback [OF v])
qed

lemma scan_items:
  "\<forall>it \<in> set its. validItem it \<Longrightarrow>
   scan clk (concat (map itemLines its) @ rest) st = scan clk rest (foldl applyItem st its)"
proof (induction its arbitrary: st)
  case Nil
  then show ?case by simp
next
  case (Cons it its)
  then have "validItem it" "\<forall>it \<in> set its. validItem it" by simp_all
  with Cons.IH [of "applyItem st it"] scan_item [of it clk "concat (map itemLines its) @ rest" st]
  show ?case by simp
qed

text \<open>What a run of items leaves in the state.\<close>

fun bodyOf :: "Item \<Rightarrow> string list" where
  "bodyOf (IBody l) = [l]" | "bodyOf _ = []"

fun memoOf :: "Item \<Rightarrow> MemoV2 list" where
  "memoOf (IMemo m) = [m]" | "memoOf _ = []"

fun gateOf :: "Item \<Rightarrow> Gate list" where
  "gateOf (IGate g) = [g]" | "gateOf _ = []"

fun checkpointOf :: "Item \<Rightarrow> Checkpoint list" where
  "checkpointOf (ICheckpoint c) = [c]" | "checkpointOf _ = []"

fun cursorOf :: "Item \<Rightarrow> PlanCursor list" where
  "cursorOf (ICursor c) = [c]" | "cursorOf _ = []"

lemma foldl_applyItem:
  "s_bodyLines (foldl applyItem st its) = s_bodyLines st @ concat (map bodyOf its)
   \<and> s_memos (foldl applyItem st its) = s_memos st @ concat (map memoOf its)
   \<and> s_gates (foldl applyItem st its) = s_gates st @ concat (map gateOf its)
   \<and> s_checkpoints (foldl applyItem st its) = s_checkpoints st @ concat (map checkpointOf its)
   \<and> s_cursor (foldl applyItem st its) =
       (if concat (map cursorOf its) = [] then s_cursor st
        else Some (last (concat (map cursorOf its))))"
proof (induction its arbitrary: st)
  case Nil
  then show ?case by simp
next
  case (Cons it its)
  show ?case
    using Cons.IH [of "applyItem st it"] by (cases it) auto
qed

subsection \<open>Lines of the serialized records\<close>

lemma attrLine_no_NL: "NL \<notin> set k \<Longrightarrow> NL \<notin> set v \<Longrightarrow> NL \<notin> set (attrLine k v)"
  by (simp add: attrLine_def)

lemma showNat_no_NL: "NL \<notin> set (showNat n)"
proof
  assume "NL \<in> set (showNat n)"
  moreover have "list_all isDigit (showNat n)" using showNat_props [of n] by simp
  ultimately have "isDigit NL" by (auto simp: list_all_iff)
  then show False by (simp add: isDigit_def)
qed

lemma memo_lines_no_NL:
  assumes "validMemo m"
  shows "\<forall>l \<in> set (serializeMemoV2_lines m). NL \<notin> set l"
proof -
  from assms have e: "esc (m_id m) = m_id m" "esc (m_source m) = m_source m"
    "esc (m_text m) = m_text m" "esc (m_anchorText m) = m_anchorText m"
    "esc (m_anchor m) = m_anchor m"
    by (simp_all add: validMemo_def safe_def esc_safe)
  from assms show ?thesis
    by (simp add: serializeMemoV2_lines_def e validMemo_def safe_def attrLine_no_NL)
qed

lemma gate_lines_no_NL:
  assumes "validGate g"
  shows "\<forall>l \<in> set (serializeGate_lines g). NL \<notin> set l"
proof -
  from assms have e: "esc (g_canProceedIf g) = g_canProceedIf g"
    "esc (g_doneDefinition g) = g_doneDefinition g"
    by (simp_all add: validGate_def safe_def esc_safe)
  have "set (joinWith '','' (g_blockedBy g)) \<subseteq> set '','' \<union> \<Union> (set ` set (g_blockedBy g))"
    by (rule joinWith_set)
  with assms have b: "NL \<notin> set (joinWith '','' (g_blockedBy g))"
    by (auto simp: validGate_def safe_def)
  from assms b show ?thesis
    by (simp add: serializeGate_lines_def e validGate_def safe_def attrLine_no_NL)
qed

lemma cursor_lines_no_NL:
  assumes "validCursor c"
  shows "\<forall>l \<in> set (serializeCursor_lines c). NL \<notin> set l"
proof -
  from assms have e: "esc (c_nextAction c) = c_nextAction c"
    by (simp add: validCursor_def safe_def esc_safe)
  from assms show ?thesis
    by (simp add: serializeCursor_lines_def e validCursor_def safe_def attrLine_no_NL)
qed

lemma checkpoint_no_NL:
  assumes "validCheckpoint cp"
  shows "NL \<notin> set (serializeCheckpoint cp)"
proof -
  from assms have e: "esc (cp_note cp) = cp_note cp"
    by (simp add: validCheckpoint_def safe_def esc_safe)
  have "set (joinWith '','' (cp_sectionsReviewed cp))
      \<subseteq> set '','' \<union> \<Union> (set ` set (cp_sectionsReviewed cp))"
    by (rule joinWith_set)
  with assms have b: "NL \<notin> set (joinWith '','' (cp_sectionsReviewed cp))"
    by (auto simp: validCheckpoint_def safe_def)
  from assms b show ?thesis
    by (simp add: serializeCheckpoint_def e validCheckpoint_def safe_def showNat_no_NL)
qed

lemma memo_split: "validMemo m \<Longrightarrow> splitOn NL (serializeMemoV2 m) = serializeMemoV2_lines m"
  unfolding serializeMemoV2_def
  by (rule splitOn_joinWith) (simp_all add: memo_lines_no_NL, simp add: serializeMemoV2_lines_def)

lemma gate_split: "validGate g \<Longrightarrow> splitOn NL (serializeGate g) = serializeGate_lines g"
  unfolding serializeGate_def
  by (rule splitOn_joinWith) (simp_all add: gate_lines_no_NL, simp add: serializeGate_lines_def)

lemma cursor_split: "validCursor c \<Longrightarrow> splitOn NL (serializeCursor c) = serializeCursor_lines c"
  unfolding serializeCursor_def
  by (rule splitOn_joinWith) (simp_all add: cursor_lines_no_NL, simp add: serializeCursor_lines_def)

lemma checkpoint_split:
  "validCheckpoint cp \<Longrightarrow> splitOn NL (serializeCheckpoint cp) = [serializeCheckpoint cp]"
  by (rule splitOn_nosep) (rule checkpoint_no_NL)

text \<open>The items of the body section: every body line, followed by the memos that resolve
  to it; then the memos that do not resolve.\<close>

definition bodyItems :: "string \<Rightarrow> MemoV2 list \<Rightarrow> Item list" where
  "bodyItems bd ms =
     concat (map (\<lambda>i. IBody (splitOn NL bd ! i) #
                    map IMemo (filter (\<lambda>m. findMemoAnchorLine (splitOn NL bd) m = int i) ms))
               [0..<length (splitOn NL bd)])
     @ map IMemo (filter (\<lambda>m. findMemoAnchorLine (splitOn NL bd) m < 0) ms)"

lemma memo_items_lines:
  "\<forall>m \<in> set ms. validMemo m \<Longrightarrow>
   concat (map (splitOn NL) (map serializeMemoV2 ms)) = concat (map itemLines (map IMemo ms))"
  by (induction ms) (simp_all add: memo_split)

lemma line_items_lines:
  assumes "\<forall>i \<in> set idx. NL \<notin> set (l i) \<and> (\<forall>m \<in> set (F i). validMemo m)"
  shows "concat (map (splitOn NL) (concat (map (\<lambda>i. l i # map serializeMemoV2 (F i)) idx)))
       = concat (map itemLines (concat (map (\<lambda>i. IBody (l i) # map IMemo (F i)) idx)))"
  using assms
proof (induction idx)
  case Nil
  then show ?case by simp
next
  case (Cons i idx)
  then have a: "NL \<notin> set (l i)" "\<forall>m \<in> set (F i). validMemo m" by simp_all
  from Cons have ih: "concat (map (splitOn NL) (concat (map (\<lambda>i. l i # map serializeMemoV2 (F i)) idx)))
       = concat (map itemLines (concat (map (\<lambda>i. IBody (l i) # map IMemo (F i)) idx)))"
    by simp
  show ?case
    using memo_items_lines [OF a(2)] by (simp add: ih splitOn_nosep [OF a(1)])
qed

lemma nth_upt_list: "map (\<lambda>i. xs ! i) [0..<length xs] = xs"
  by (rule map_nth)

lemma reinsert_lines:
  assumes "\<forall>m \<in> set ms. validMemo m"
  shows "splitOn NL (reinsertMemos bd ms) = concat (map itemLines (bodyItems bd ms))"
proof (cases "ms = []")
  case True
  have "concat (map itemLines (concat (map (\<lambda>i. [IBody (splitOn NL bd ! i)]) [0..<length (splitOn NL bd)])))
      = map (\<lambda>i. splitOn NL bd ! i) [0..<length (splitOn NL bd)]"
    by (induction "[0..<length (splitOn NL bd)]" arbitrary: bd) (simp_all add: map_concat comp_def)
  then show ?thesis
    using True by (simp add: reinsertMemos_def bodyItems_def map_nth)
next
  case False
  let ?ls = "splitOn NL bd"
  let ?F = "\<lambda>i. filter (\<lambda>m. findMemoAnchorLine ?ls m = int i) ms"
  let ?U = "filter (\<lambda>m. findMemoAnchorLine ?ls m < 0) ms"
  let ?E = "concat (map (\<lambda>i. ?ls ! i # map serializeMemoV2 (?F i)) [0..<length ?ls])
            @ map serializeMemoV2 ?U"
  have ne: "?E \<noteq> []"
    using splitOn_nonempty [of NL bd] by (cases "splitOn NL bd") (simp_all add: upt_rec)
  have r: "reinsertMemos bd ms = joinWith [NL] ?E"
    by (rule reinsertMemos_explicit [OF False])
  have a: "\<forall>i \<in> set [0..<length ?ls]. NL \<notin> set (?ls ! i) \<and> (\<forall>m \<in> set (?F i). validMemo m)"
    using assms splitOn_no_sep_in_lines [of _ NL bd] by auto
  have u: "\<forall>m \<in> set ?U. validMemo m" using assms by simp
  show ?thesis
    unfolding r splitOn_joinWith_concat [OF ne] bodyItems_def
    using line_items_lines [of "[0..<length ?ls]" "\<lambda>i. ?ls ! i" ?F, OF a] memo_items_lines [OF u]
    by simp
qed

text \<open>The sections after the frontmatter, and the items of the whole document: each
  section is followed by one empty line (the blank line between sections, and the line
  after the last newline).\<close>

definition restSections :: "DocumentParts \<Rightarrow> string list" where
  "restSections parts =
     reinsertMemos (body parts) (memos parts)
     # map serializeGate (gates parts)
     @ map serializeCheckpoint (checkpoints parts)
     @ (case cursor parts of Some cur \<Rightarrow> [serializeCursor cur] | None \<Rightarrow> [])"

definition allItems :: "DocumentParts \<Rightarrow> Item list" where
  "allItems parts =
     bodyItems (body parts) (memos parts) @ [IBody []]
     @ concat (map (\<lambda>g. [IGate g, IBody []]) (gates parts))
     @ concat (map (\<lambda>c. [ICheckpoint c, IBody []]) (checkpoints parts))
     @ (case cursor parts of Some cur \<Rightarrow> [ICursor cur, IBody []] | None \<Rightarrow> [])"

definition validParts :: "DocumentParts \<Rightarrow> bool" where
  "validParts parts \<longleftrightarrow>
     (\<forall>l \<in> set (splitOn NL (body parts)). plainLine l)
     \<and> (\<forall>m \<in> set (memos parts). validMemo m)
     \<and> (\<forall>g \<in> set (gates parts). validGate g)
     \<and> (\<forall>c \<in> set (checkpoints parts). validCheckpoint c)
     \<and> (\<forall>c. cursor parts = Some c \<longrightarrow> validCursor c)"

lemma gates_lines:
  "\<forall>g \<in> set gs. validGate g \<Longrightarrow>
   concat (map (\<lambda>x. splitOn NL x @ [[]]) (map serializeGate gs))
     = concat (map itemLines (concat (map (\<lambda>g. [IGate g, IBody []]) gs)))"
  by (induction gs) (simp_all add: gate_split)

lemma checkpoints_lines:
  "\<forall>c \<in> set cs. validCheckpoint c \<Longrightarrow>
   concat (map (\<lambda>x. splitOn NL x @ [[]]) (map serializeCheckpoint cs))
     = concat (map itemLines (concat (map (\<lambda>c. [ICheckpoint c, IBody []]) cs)))"
  by (induction cs) (simp_all add: checkpoint_split)

lemma rest_lines:
  assumes "validParts parts"
  shows "splitOn NL (joinWith [NL, NL] (restSections parts) @ [NL])
       = concat (map itemLines (allItems parts))"
proof -
  have ne: "restSections parts \<noteq> []" by (simp add: restSections_def)
  from assms have m: "\<forall>m \<in> set (memos parts). validMemo m"
    and g: "\<forall>g \<in> set (gates parts). validGate g"
    and c: "\<forall>c \<in> set (checkpoints parts). validCheckpoint c"
    and k: "\<forall>c. cursor parts = Some c \<longrightarrow> validCursor c"
    by (simp_all add: validParts_def)
  have cur: "concat (map (\<lambda>x. splitOn NL x @ [[]])
        (case cursor parts of Some cur \<Rightarrow> [serializeCursor cur] | None \<Rightarrow> []))
      = concat (map itemLines (case cursor parts of Some cur \<Rightarrow> [ICursor cur, IBody []] | None \<Rightarrow> []))"
    using k by (cases "cursor parts") (simp_all add: cursor_split)
  show ?thesis
    unfolding splitOn_sections [OF ne]
    by (simp add: restSections_def allItems_def reinsert_lines [OF m] gates_lines [OF g]
        checkpoints_lines [OF c] cur del: map_map)
qed

lemma allItems_valid:
  assumes "validParts parts"
  shows "\<forall>it \<in> set (allItems parts). validItem it"
proof -
  from assms have b: "\<forall>l \<in> set (splitOn NL (body parts)). plainLine l"
    and m: "\<forall>m \<in> set (memos parts). validMemo m"
    and g: "\<forall>g \<in> set (gates parts). validGate g"
    and c: "\<forall>c \<in> set (checkpoints parts). validCheckpoint c"
    and k: "\<forall>c. cursor parts = Some c \<longrightarrow> validCursor c"
    by (simp_all add: validParts_def)
  have bi: "\<forall>it \<in> set (bodyItems (body parts) (memos parts)). validItem it"
    using b m by (auto simp: bodyItems_def)
  have ci: "\<forall>it \<in> set (case cursor parts of Some cur \<Rightarrow> [ICursor cur, IBody []] | None \<Rightarrow> []).
      validItem it"
    using k by (cases "cursor parts") (simp_all add: plainLine_empty)
  show ?thesis
    using bi g c ci by (auto simp: allItems_def plainLine_empty)
qed

text \<open>The order in which the memos come back: by resolved line, the unresolved last;
  within one line in bundle order.\<close>

definition memoOrder :: "string \<Rightarrow> MemoV2 list \<Rightarrow> MemoV2 list" where
  "memoOrder bd ms =
     concat (map (\<lambda>i. filter (\<lambda>m. findMemoAnchorLine (splitOn NL bd) m = int i) ms)
               [0..<length (splitOn NL bd)])
     @ filter (\<lambda>m. findMemoAnchorLine (splitOn NL bd) m < 0) ms"

lemma bodyItems_proj:
  "concat (map bodyOf (bodyItems bd ms)) = splitOn NL bd
   \<and> concat (map memoOf (bodyItems bd ms)) = memoOrder bd ms
   \<and> concat (map gateOf (bodyItems bd ms)) = []
   \<and> concat (map checkpointOf (bodyItems bd ms)) = []
   \<and> concat (map cursorOf (bodyItems bd ms)) = []"
proof -
  have m: "concat (map f (map IMemo xs)) = concat (map (\<lambda>m. f (IMemo m)) xs)"
    for f :: "Item \<Rightarrow> 'a list" and xs
    by (simp add: comp_def)
  have l: "concat (map f (concat (map (\<lambda>i. IBody (l i) # map IMemo (F i)) idx)))
      = concat (map (\<lambda>i. f (IBody (l i)) @ concat (map (\<lambda>m. f (IMemo m)) (F i))) idx)"
    for f :: "Item \<Rightarrow> 'a list" and l F and idx :: "nat list"
    by (induction idx) (simp_all add: comp_def)
  have nth: "concat (map (\<lambda>i. [splitOn NL bd ! i]) [0..<length (splitOn NL bd)]) = splitOn NL bd"
    using map_nth [of "splitOn NL bd"] by (simp add: concat_map_singleton)
  have e: "concat (map (\<lambda>i. []) idx) = ([] :: 'a list)" for idx :: "'b list"
    by (induction idx) simp_all
  have s: "concat (map (\<lambda>m. [m]) xs) = xs" for xs :: "MemoV2 list"
    by (induction xs) simp_all
  show ?thesis
    unfolding bodyItems_def map_append concat_append l m
    by (simp add: nth e s memoOrder_def map_nth)
qed

lemma allItems_proj:
  "concat (map bodyOf (allItems parts)) =
     splitOn NL (body parts)
     @ replicate (1 + length (gates parts) + length (checkpoints parts)
                  + (case cursor parts of Some c \<Rightarrow> 1 | None \<Rightarrow> 0)) []
   \<and> concat (map memoOf (allItems parts)) = memoOrder (body parts) (memos parts)
   \<and> concat (map gateOf (allItems parts)) = gates parts
   \<and> concat (map checkpointOf (allItems parts)) = checkpoints parts
   \<and> concat (map cursorOf (allItems parts)) = (case cursor parts of Some c \<Rightarrow> [c] | None \<Rightarrow> [])"
proof -
  have g: "concat (map bodyOf (concat (map (\<lambda>g. [IGate g, IBody []]) gs))) = replicate (length gs) []
      \<and> concat (map memoOf (concat (map (\<lambda>g. [IGate g, IBody []]) gs))) = []
      \<and> concat (map gateOf (concat (map (\<lambda>g. [IGate g, IBody []]) gs))) = gs
      \<and> concat (map checkpointOf (concat (map (\<lambda>g. [IGate g, IBody []]) gs))) = []
      \<and> concat (map cursorOf (concat (map (\<lambda>g. [IGate g, IBody []]) gs))) = []" for gs
    by (induction gs) simp_all
  have c: "concat (map bodyOf (concat (map (\<lambda>c. [ICheckpoint c, IBody []]) cs))) = replicate (length cs) []
      \<and> concat (map memoOf (concat (map (\<lambda>c. [ICheckpoint c, IBody []]) cs))) = []
      \<and> concat (map gateOf (concat (map (\<lambda>c. [ICheckpoint c, IBody []]) cs))) = []
      \<and> concat (map checkpointOf (concat (map (\<lambda>c. [ICheckpoint c, IBody []]) cs))) = cs
      \<and> concat (map cursorOf (concat (map (\<lambda>c. [ICheckpoint c, IBody []]) cs))) = []" for cs
    by (induction cs) simp_all
  have rep: "replicate a x @ x # replicate b x = x # replicate (a + b) x" for a b and x :: string
    by (induction a) simp_all
  have rep2: "replicate a x @ x # replicate b x @ [x] = x # x # replicate (a + b) x" for a b and x :: string
    by (induction a) (simp_all add: replicate_append_same)
  show ?thesis
    unfolding allItems_def map_append concat_append
    using bodyItems_proj [of "body parts" "memos parts"] g [of "gates parts"] c [of "checkpoints parts"]
    by (cases "cursor parts")
       (simp_all add: rep rep2 replicate_append_same replicate_add del: concat_eq_Nil_conv)
qed

lemma trimTrailingBlank_blanks:
  "trimTrailingBlank (ls @ replicate n []) = trimTrailingBlank ls"
proof -
  have "\<forall>x \<in> set (replicate n ([] :: string)). trim x = []" by (simp add: str_eval)
  then have "dropWhile (\<lambda>l. trim l = []) (replicate n [] @ rev ls) = dropWhile (\<lambda>l. trim l = []) (rev ls)"
    by (intro dropWhile_append2) blast
  then show ?thesis by (simp add: trimTrailingBlank_def)
qed

lemma mergeDocument_rest:
  "mergeDocument parts =
     (if frontmatter parts = [] then [] else trimEnd (frontmatter parts) @ [NL, NL])
     @ joinWith [NL, NL] (restSections parts) @ [NL]"
proof -
  obtain x xs where r: "restSections parts = x # xs" by (simp add: restSections_def)
  have "mergeSections parts =
      (if frontmatter parts \<noteq> [] then [trimEnd (frontmatter parts)] else []) @ restSections parts"
    by (simp add: mergeSections_def restSections_def)
  then show ?thesis by (simp add: mergeDocument_def r)
qed

text \<open>The frontmatter pattern finds in the merged document what the merger put there:
  nothing when the bundle has no frontmatter, the trimmed frontmatter and the blank line
  after it otherwise.\<close>

definition frontmatterKept :: "DocumentParts \<Rightarrow> bool" where
  "frontmatterKept parts \<longleftrightarrow>
     (if frontmatter parts = [] then matchFrontmatter (mergeDocument parts) = None
      else matchFrontmatter (mergeDocument parts) = Some (length (trimEnd (frontmatter parts)) + 2))"

lemma split_merge:
  assumes v: "validParts parts" and fm: "frontmatterKept parts"
  shows "splitDocument clk (mergeDocument parts) =
     \<lparr>frontmatter = (if frontmatter parts = [] then [] else trimEnd (frontmatter parts) @ [NL, NL]),
      body = joinWith [NL] (trimTrailingBlank (splitOn NL (body parts))),
      memos = memoOrder (body parts) (memos parts),
      checkpoints = checkpoints parts, gates = gates parts, cursor = cursor parts,
      unknownComments = []\<rparr>"
proof -
  define n where "n = (if frontmatter parts = [] then 0 else length (trimEnd (frontmatter parts)) + 2)"
  have mf: "(case matchFrontmatter (mergeDocument parts) of Some k \<Rightarrow> k | None \<Rightarrow> 0) = n"
    using fm by (auto simp: frontmatterKept_def n_def)
  have dr: "drop n (mergeDocument parts) = joinWith [NL, NL] (restSections parts) @ [NL]"
    unfolding mergeDocument_rest n_def by simp
  have tk: "take n (mergeDocument parts)
      = (if frontmatter parts = [] then [] else trimEnd (frontmatter parts) @ [NL, NL])"
    unfolding mergeDocument_rest n_def by simp
  have ls: "splitOn NL (drop n (mergeDocument parts)) = concat (map itemLines (allItems parts))"
    unfolding dr by (rule rest_lines [OF v])
  have sc: "scan clk (concat (map itemLines (allItems parts))) initState
      = foldl applyItem initState (allItems parts)"
    using scan_items [OF allItems_valid [OF v], of clk "[]" initState] by simp
  note P = allItems_proj [of parts]
  note F = foldl_applyItem [of initState "allItems parts"]
  have b: "s_bodyLines (foldl applyItem initState (allItems parts)) =
      splitOn NL (body parts)
      @ replicate (1 + length (gates parts) + length (checkpoints parts)
                   + (case cursor parts of Some c \<Rightarrow> 1 | None \<Rightarrow> 0)) []"
    using F P by (simp add: initState_def)
  have m: "s_memos (foldl applyItem initState (allItems parts)) = memoOrder (body parts) (memos parts)"
    using F P by (simp add: initState_def)
  have g: "s_gates (foldl applyItem initState (allItems parts)) = gates parts"
    using F P by (simp add: initState_def)
  have c: "s_checkpoints (foldl applyItem initState (allItems parts)) = checkpoints parts"
    using F P by (simp add: initState_def)
  have k: "s_cursor (foldl applyItem initState (allItems parts)) = cursor parts"
    using F P by (cases "cursor parts") (simp_all add: initState_def)
  show ?thesis
    unfolding splitDocument_def mf Let_def ls sc b m g c k tk trimTrailingBlank_blanks ..
qed

subsection \<open>C1: split after merge\<close>

text \<open>A bundle with one body line and one memo whose anchor fields are empty: what the
  splitter yields for a memo that stands at the top of a document.\<close>

definition topMemoParts :: DocumentParts where
  "topMemoParts = \<lparr>frontmatter = '''', body = ''Hello'',
     memos = [mkMemo ''m1'' ''open''],
     checkpoints = [], gates = [], cursor = None, unknownComments = []\<rparr>"

lemma topMemo_pairs: "attrPairs (memoPairs (mkMemo ''m1'' ''open''))"
  by (simp add: attrPairs_def memoPairs_def mkMemo_def esc_def isWord_def isDigit_def)

lemma topMemo_merge:
  "mergeDocument topMemoParts
     = joinWith [NL] (''Hello'' # serializeMemoV2_lines (mkMemo ''m1'' ''open'')) @ [NL]"
proof -
  have f: "findMemoAnchorLine [''Hello''] (mkMemo ''m1'' ''open'') = -1"
    by (simp add: findMemoAnchorLine_def mkMemo_def)
  have r: "reinsertMemos ''Hello'' [mkMemo ''m1'' ''open'']
      = joinWith [NL] (''Hello'' # serializeMemoV2_lines (mkMemo ''m1'' ''open''))"
    using reinsertMemos_explicit [of "[mkMemo ''m1'' ''open'']" "''Hello''"]
    by (simp add: f serializeMemoV2_def serializeMemoV2_lines_def)
  show ?thesis
    by (simp add: mergeDocument_def mergeSections_def topMemoParts_def r)
qed

lemma topMemo_resplit:
  "splitDocument clk0 (mergeDocument topMemoParts)
     = topMemoParts\<lparr>memos := [(mkMemo ''m1'' ''open'')\<lparr>m_anchorText := ''Hello''\<rparr>]\<rparr>"
proof -
  have nl: "\<forall>x \<in> set (''Hello'' # serializeMemoV2_lines (mkMemo ''m1'' ''open'') @ [[]]). NL \<notin> set x"
    by (simp add: serializeMemoV2_lines_def mkMemo_def attrLine_def esc_def)
  have j: "joinWith [NL] (''Hello'' # serializeMemoV2_lines (mkMemo ''m1'' ''open'')) @ [NL]
      = joinWith [NL] (''Hello'' # serializeMemoV2_lines (mkMemo ''m1'' ''open'') @ [[]])"
    by (simp add: serializeMemoV2_lines_def)
  have l: "splitOn NL (mergeDocument topMemoParts)
      = ''Hello'' # serializeMemoV2_lines (mkMemo ''m1'' ''open'') @ [[]]"
    unfolding topMemo_merge j using splitOn_joinWith [OF _ nl] by simp
  have fm: "matchFrontmatter (mergeDocument topMemoParts) = None"
    unfolding topMemo_merge
    by (simp add: matchFrontmatter_def afterPrefix_def startsWith_def serializeMemoV2_lines_def)
  have a: "memoFromAttrs clk0 [''Hello''] (attrMap (memoPairs (mkMemo ''m1'' ''open'')))
      = (mkMemo ''m1'' ''open'')\<lparr>m_anchorText := ''Hello''\<rparr>"
    by (simp add: memoFromAttrs_def attrMap_def memoPairs_def mkMemo_def esc_def orElse_def
        findAnchorAbove_def str_eval)
  have s: "scan clk0 (''Hello'' # serializeMemoV2_lines (mkMemo ''m1'' ''open'') @ [[]]) initState
      = \<lparr>s_bodyLines = [''Hello'', []],
         s_memos = [(mkMemo ''m1'' ''open'')\<lparr>m_anchorText := ''Hello''\<rparr>],
         s_checkpoints = [], s_gates = [], s_cursor = None\<rparr>"
    unfolding serializeMemoV2_lines_pairs
    using scan_memo_block [OF topMemo_pairs, of clk0 "[[]]" "initState\<lparr>s_bodyLines := [''Hello'']\<rparr>"]
      step_plain [OF plainLine_needs_no_comment, of "''Hello''"]
      step_plain [OF plainLine_empty]
    by (simp add: initState_def str_eval a)
  from splitDocument_eval [OF fm l s] show ?thesis
    by (simp add: topMemoParts_def trimTrailingBlank_def str_eval)
qed



text \<open>A bundle with every kind of record: frontmatter, two body lines, a memo anchored to
  the second line by its text, a gate, a checkpoint and a cursor.\<close>

definition reviewParts :: DocumentParts where
  "reviewParts = \<lparr>frontmatter = ''---\<newline>title: x\<newline>---'', body = ''# Title\<newline>Some line'',
     memos = [anchored '''' ''Some line''],
     checkpoints = [\<lparr>cp_id = ''cp1'', cp_timestamp = ''t1'', cp_note = ''first pass'',
        cp_fixes = 1, cp_questions = 0, cp_highlights = 2, cp_sectionsReviewed = [''Intro'']\<rparr>],
     gates = [mkGate ''g1'' [''m1'']],
     cursor = Some \<lparr>c_taskId = ''task-1'', c_step = ''2/5'', c_nextAction = ''review'',
        c_lastSeenHash = ''abc'', c_updatedAt = ''t2''\<rparr>,
     unknownComments = []\<rparr>"

lemma reviewParts_valid: "validParts reviewParts"
proof -
  have b: "splitOn NL (body reviewParts) = [''# Title'', ''Some line'']"
    by (simp add: reviewParts_def)
  have p1: "plainLine ''# Title''"
    by (rule plainLine_needs_no_comment) (simp add: str_eval)
  have p2: "plainLine ''Some line''"
    by (rule plainLine_needs_no_comment) (simp add: str_eval)
  have m: "\<forall>m \<in> set (memos reviewParts). validMemo m"
    by (simp add: reviewParts_def validMemo_def safe_def anchored_def mkMemo_def)
  have g: "\<forall>g \<in> set (gates reviewParts). validGate g"
    by (simp add: reviewParts_def validGate_def safe_def mkGate_def str_eval)
  have c: "\<forall>c \<in> set (checkpoints reviewParts). validCheckpoint c"
    by (simp add: reviewParts_def validCheckpoint_def safe_def safeCount_def)
  have k: "\<forall>c. cursor reviewParts = Some c \<longrightarrow> validCursor c"
    by (simp add: reviewParts_def validCursor_def safe_def)
  show ?thesis unfolding validParts_def b using p1 p2 m g c k by simp
qed

lemma reviewParts_reinsert:
  "reinsertMemos (body reviewParts) (memos reviewParts)
     = joinWith [NL] [''# Title'', ''Some line'', serializeMemoV2 (anchored '''' ''Some line'')]"
proof -
  have b: "splitOn NL (body reviewParts) = [''# Title'', ''Some line'']"
    by (simp add: reviewParts_def)
  have ms: "memos reviewParts = [anchored '''' ''Some line'']"
    by (simp add: reviewParts_def)
  have f: "findMemoAnchorLine [''# Title'', ''Some line''] (anchored '''' ''Some line'') = 1"
    by (simp add: findMemoAnchorLine_def anchored_def mkMemo_def str_eval)
  have ne: "memos reviewParts \<noteq> []" by (simp add: ms)
  show ?thesis
    unfolding reinsertMemos_explicit [OF ne] b unfolding ms by (simp add: f upt_rec)
qed

lemma joinWith_Cons:
  "joinWith sep (x # xs) = x @ (if xs = [] then [] else sep @ joinWith sep xs)"
  by (cases xs) simp_all

lemma reviewParts_frontmatterKept: "frontmatterKept reviewParts"
proof -
  have t: "trimEnd (frontmatter reviewParts) = ''---\<newline>title: x\<newline>---''"
    by (simp add: reviewParts_def str_eval)
  have ne: "frontmatter reviewParts \<noteq> []" by (simp add: reviewParts_def)
  obtain R where d: "mergeDocument reviewParts = ''---\<newline>title: x\<newline>---\<newline>\<newline># Title'' @ NL # R"
    unfolding mergeDocument_rest restSections_def reviewParts_reinsert t joinWith_Cons
    by (simp add: ne)
  have "matchFrontmatter (''---\<newline>title: x\<newline>---\<newline>\<newline># Title'' @ NL # R) = Some 18"
    by (simp add: matchFrontmatter_def wsNlEnds_def str_eval upt_rec)
  then show ?thesis unfolding frontmatterKept_def d [symmetric] t using ne by simp
qed


section \<open>Idempotence: split and merge, twice\<close>

subsection \<open>The body the splitter returns\<close>

lemma step_lines:
  "set (fst (step clk line rest st)) \<subseteq> set rest
   \<and> set (s_bodyLines (snd (step clk line rest st))) \<subseteq> insert line (set (s_bodyLines st))"
proof -
  have d: "set (drop n (dropWhile P rest)) \<subseteq> set rest" for P :: "string \<Rightarrow> bool" and n
    using set_drop_subset [of n "dropWhile P rest"] set_dropWhileD [of _ P rest] by blast
  show ?thesis
    unfolding step_def Let_def
    using d by (auto split: option.split)
qed

lemma scan_lines:
  "set (s_bodyLines (scan clk ls st)) \<subseteq> set ls \<union> set (s_bodyLines st)"
proof (induction "length ls" arbitrary: ls st rule: less_induct)
  case less
  show ?case
  proof (cases ls)
    case Nil
    then show ?thesis by simp
  next
    case (Cons line rest)
    obtain rest' st' where s: "step clk line rest st = (rest', st')"
      by (cases "step clk line rest st")
    have a: "set rest' \<subseteq> set rest"
      and b: "set (s_bodyLines st') \<subseteq> insert line (set (s_bodyLines st))"
      using step_lines [of clk line rest st] by (simp_all add: s)
    have "length rest' < length ls"
      using step_length [of clk line rest st] by (simp add: s Cons)
    then have "set (s_bodyLines (scan clk rest' st')) \<subseteq> set rest' \<union> set (s_bodyLines st')"
      by (rule less)
    moreover have "scan clk ls st = scan clk rest' st'" by (simp add: Cons s)
    ultimately show ?thesis using a b Cons by auto
  qed
qed

lemma trimTrailingBlank_idem: "trimTrailingBlank (trimTrailingBlank ls) = trimTrailingBlank ls"
  by (simp add: trimTrailingBlank_def)

lemma trimTrailingBlank_subset: "set (trimTrailingBlank ls) \<subseteq> set ls"
  using set_dropWhileD [of _ "\<lambda>l. trim l = []" "rev ls"] by (auto simp: trimTrailingBlank_def)

lemma body_trimmed:
  assumes "\<forall>l \<in> set ls. NL \<notin> set l"
  shows "joinWith [NL] (trimTrailingBlank (splitOn NL (joinWith [NL] (trimTrailingBlank ls))))
       = joinWith [NL] (trimTrailingBlank ls)"
proof (cases "trimTrailingBlank ls = []")
  case True
  show ?thesis unfolding True by (simp add: trimTrailingBlank_def str_eval)
next
  case False
  have "\<forall>l \<in> set (trimTrailingBlank ls). NL \<notin> set l"
    using assms trimTrailingBlank_subset by blast
  then have "splitOn NL (joinWith [NL] (trimTrailingBlank ls)) = trimTrailingBlank ls"
    by (rule splitOn_joinWith [OF False])
  then show ?thesis by (simp add: trimTrailingBlank_idem)
qed

lemma split_body_trimmed:
  "joinWith [NL] (trimTrailingBlank (splitOn NL (body (splitDocument clk T))))
     = body (splitDocument clk T)"
proof -
  define n where "n = (case matchFrontmatter T of Some k \<Rightarrow> k | None \<Rightarrow> 0)"
  define st where "st = scan clk (splitOn NL (drop n T)) initState"
  have b: "body (splitDocument clk T) = joinWith [NL] (trimTrailingBlank (s_bodyLines st))"
    by (simp add: splitDocument_def Let_def n_def st_def)
  have "set (s_bodyLines st) \<subseteq> set (splitOn NL (drop n T))"
    using scan_lines [of clk "splitOn NL (drop n T)" initState] by (simp add: st_def initState_def)
  then have "\<forall>l \<in> set (s_bodyLines st). NL \<notin> set l"
    using splitOn_no_sep_in_lines by blast
  then show ?thesis unfolding b by (rule body_trimmed)
qed

subsection \<open>Merging what a split of a merged document returns\<close>

lemma trimEnd_idem: "trimEnd (trimEnd s) = trimEnd s"
  by (simp add: trimEnd_def)

lemma trimEnd_blank_line: "trimEnd (s @ [NL, NL]) = trimEnd s"
  by (simp add: trimEnd_def isSpace_def)

lemma concat_single:
  "j < n \<Longrightarrow> concat (map (\<lambda>i. if i = j then X else []) [0..<n]) = X"
proof (induction n)
  case 0
  then show ?case by simp
next
  case (Suc n)
  show ?case
  proof (cases "j = n")
    case True
    have "concat (map (\<lambda>i. if i = n then X else []) [0..<n]) = []" by simp
    with True show ?thesis by simp
  next
    case False
    with Suc show ?thesis by simp
  qed
qed

lemma concat_nils: "concat (map (\<lambda>i. []) xs) = []"
  by (induction xs) simp_all

lemma mset_memoOrder: "mset (memoOrder bd ms) = mset ms"
proof -
  have "\<forall>m \<in> set ms.
          findMemoAnchorLine (splitOn NL bd) m < 0
          \<or> (0 \<le> findMemoAnchorLine (splitOn NL bd) m
             \<and> findMemoAnchorLine (splitOn NL bd) m < int (length (splitOn NL bd)))"
    using findMemoAnchorLine_range [of "splitOn NL bd"] by force
  then show ?thesis unfolding memoOrder_def by (rule mset_by_line)
qed

lemma memoOrder_filter_line:
  assumes "j < length (splitOn NL bd)"
  shows "filter (\<lambda>m. findMemoAnchorLine (splitOn NL bd) m = int j) (memoOrder bd ms)
       = filter (\<lambda>m. findMemoAnchorLine (splitOn NL bd) m = int j) ms"
proof -
  let ?f = "findMemoAnchorLine (splitOn NL bd)"
  have 1: "filter (\<lambda>m. ?f m = int j) (filter (\<lambda>m. ?f m = int i) ms)
      = (if i = j then filter (\<lambda>m. ?f m = int j) ms else [])" for i
    by (induction ms) auto
  have 2: "filter (\<lambda>m. ?f m = int j) (filter (\<lambda>m. ?f m < 0) ms) = []"
    by (induction ms) auto
  show ?thesis
    unfolding memoOrder_def
    by (simp add: filter_concat comp_def 1 2 concat_single [OF assms] del: filter_filter)
qed

lemma memoOrder_filter_none:
  "filter (\<lambda>m. findMemoAnchorLine (splitOn NL bd) m < 0) (memoOrder bd ms)
     = filter (\<lambda>m. findMemoAnchorLine (splitOn NL bd) m < 0) ms"
proof -
  let ?f = "findMemoAnchorLine (splitOn NL bd)"
  have 1: "filter (\<lambda>m. ?f m < 0) (filter (\<lambda>m. ?f m = int i) ms) = []" for i
    by (induction ms) auto
  have 2: "filter (\<lambda>m. ?f m < 0) (filter (\<lambda>m. ?f m < 0) ms) = filter (\<lambda>m. ?f m < 0) ms"
    by (induction ms) auto
  show ?thesis
    unfolding memoOrder_def
    by (simp add: filter_concat comp_def 1 2 del: filter_filter)
qed

lemma reinsertMemos_memoOrder: "reinsertMemos bd (memoOrder bd ms) = reinsertMemos bd ms"
proof (cases "ms = []")
  case True
  then show ?thesis by (simp add: memoOrder_def concat_nils)
next
  case False
  have "mset (memoOrder bd ms) \<noteq> {#}" using False by (simp add: mset_memoOrder)
  then have ne: "memoOrder bd ms \<noteq> []" by auto
  have L: "map (\<lambda>i. splitOn NL bd ! i #
                  map serializeMemoV2
                    (filter (\<lambda>m. findMemoAnchorLine (splitOn NL bd) m = int i) (memoOrder bd ms)))
             [0..<length (splitOn NL bd)]
         = map (\<lambda>i. splitOn NL bd ! i #
                  map serializeMemoV2
                    (filter (\<lambda>m. findMemoAnchorLine (splitOn NL bd) m = int i) ms))
             [0..<length (splitOn NL bd)]"
    by (rule map_cong [OF refl]) (simp add: memoOrder_filter_line)
  show ?thesis
    unfolding reinsertMemos_explicit [OF ne] reinsertMemos_explicit [OF False] L
      memoOrder_filter_none ..
qed

lemma merge_split_merge:
  assumes v: "validParts parts" and fm: "frontmatterKept parts"
    and b: "joinWith [NL] (trimTrailingBlank (splitOn NL (body parts))) = body parts"
  shows "mergeDocument (splitDocument clk (mergeDocument parts)) = mergeDocument parts"
proof -
  let ?p = "splitDocument clk (mergeDocument parts)"
  note s = split_merge [OF v fm, of clk]
  have 1: "frontmatter ?p
      = (if frontmatter parts = [] then [] else trimEnd (frontmatter parts) @ [NL, NL])"
    by (simp add: s)
  have 2: "body ?p = body parts" by (simp add: s b)
  have 3: "memos ?p = memoOrder (body parts) (memos parts)" by (simp add: s)
  have 4: "gates ?p = gates parts" "checkpoints ?p = checkpoints parts" "cursor ?p = cursor parts"
    by (simp_all add: s)
  have f: "(if frontmatter ?p \<noteq> [] then [trimEnd (frontmatter ?p)] else [])
      = (if frontmatter parts \<noteq> [] then [trimEnd (frontmatter parts)] else [])"
    unfolding 1 by (simp add: trimEnd_blank_line trimEnd_idem)
  have ms: "mergeSections ?p = mergeSections parts"
    unfolding mergeSections_def f 2 3 4 reinsertMemos_memoOrder ..
  have "mergeDocument ?p = joinWith [NL, NL] (mergeSections ?p) @ [NL]"
    by (rule mergeDocument_def)
  also have "\<dots> = joinWith [NL, NL] (mergeSections parts) @ [NL]"
    by (simp only: ms)
  also have "\<dots> = mergeDocument parts"
    by (rule mergeDocument_def [symmetric])
  finally show ?thesis .
qed

lemma split_merge_valid:
  assumes v: "validParts parts" and fm: "frontmatterKept parts"
    and b: "joinWith [NL] (trimTrailingBlank (splitOn NL (body parts))) = body parts"
  shows "validParts (splitDocument clk (mergeDocument parts))
       \<and> frontmatterKept (splitDocument clk (mergeDocument parts))"
proof -
  let ?p = "splitDocument clk (mergeDocument parts)"
  note s = split_merge [OF v fm, of clk]
  have 1: "frontmatter ?p
      = (if frontmatter parts = [] then [] else trimEnd (frontmatter parts) @ [NL, NL])"
    by (simp add: s)
  have 2: "body ?p = body parts" by (simp add: s b)
  have 3: "memos ?p = memoOrder (body parts) (memos parts)" by (simp add: s)
  have 4: "gates ?p = gates parts" "checkpoints ?p = checkpoints parts" "cursor ?p = cursor parts"
    by (simp_all add: s)
  have "set (memoOrder (body parts) (memos parts)) = set (memos parts)"
    using mset_memoOrder [of "body parts" "memos parts"] by (rule mset_eq_setD)
  then have vp: "validParts ?p"
    using v unfolding validParts_def 2 3 4 by simp
  have m: "mergeDocument ?p = mergeDocument parts"
    by (rule merge_split_merge [OF v fm b])
  have e: "(frontmatter ?p = []) = (frontmatter parts = [])"
    unfolding 1 by simp
  have t: "trimEnd (frontmatter ?p) = trimEnd (frontmatter parts)"
    unfolding 1 by (simp add: trimEnd_blank_line trimEnd_idem)
  have "frontmatterKept ?p"
    using fm unfolding frontmatterKept_def m e t .
  with vp show ?thesis by (rule conjI)
qed

subsection \<open>C8: merge after split, twice\<close>

text \<open>A memo block in canonical form at the top of a document, and one body line below it.\<close>

definition topMemoText :: string where
  "topMemoText = serializeMemoV2 (mkMemo ''m1'' ''open'') @ NL # ''Hello''"

lemma topMemo_split: "splitDocument clk0 topMemoText = topMemoParts"
proof -
  have nl: "\<forall>x \<in> set (serializeMemoV2_lines (mkMemo ''m1'' ''open'') @ [''Hello'']). NL \<notin> set x"
    by (simp add: serializeMemoV2_lines_def mkMemo_def attrLine_def esc_def)
  have j: "topMemoText = joinWith [NL] (serializeMemoV2_lines (mkMemo ''m1'' ''open'') @ [''Hello''])"
    by (simp add: topMemoText_def serializeMemoV2_def serializeMemoV2_lines_def)
  have l: "splitOn NL topMemoText = serializeMemoV2_lines (mkMemo ''m1'' ''open'') @ [''Hello'']"
    unfolding j using splitOn_joinWith [OF _ nl] by simp
  have fm: "matchFrontmatter topMemoText = None"
    unfolding j
    by (simp add: matchFrontmatter_def afterPrefix_def startsWith_def serializeMemoV2_lines_def)
  have a: "memoFromAttrs clk0 [] (attrMap (memoPairs (mkMemo ''m1'' ''open''))) = mkMemo ''m1'' ''open''"
    by (simp add: memoFromAttrs_def attrMap_def memoPairs_def mkMemo_def esc_def orElse_def
        findAnchorAbove_def str_eval)
  have s: "scan clk0 (serializeMemoV2_lines (mkMemo ''m1'' ''open'') @ [''Hello'']) initState
      = \<lparr>s_bodyLines = [''Hello''], s_memos = [mkMemo ''m1'' ''open''], s_checkpoints = [],
         s_gates = [], s_cursor = None\<rparr>"
    unfolding serializeMemoV2_lines_pairs
    using scan_memo_block [OF topMemo_pairs, of clk0 "[''Hello'']" initState]
      step_plain [OF plainLine_needs_no_comment, of "''Hello''"]
    by (simp add: initState_def str_eval a)
  from splitDocument_eval [OF fm l s] show ?thesis
    by (simp add: topMemoParts_def trimTrailingBlank_def str_eval)
qed

lemma topMemo_remerge:
  "mergeDocument (topMemoParts\<lparr>memos := [(mkMemo ''m1'' ''open'')\<lparr>m_anchorText := ''Hello''\<rparr>]\<rparr>)
     = joinWith [NL]
         (''Hello'' # serializeMemoV2_lines ((mkMemo ''m1'' ''open'')\<lparr>m_anchorText := ''Hello''\<rparr>))
       @ [NL]"
proof -
  have f: "findMemoAnchorLine [''Hello''] ((mkMemo ''m1'' ''open'')\<lparr>m_anchorText := ''Hello''\<rparr>) = 0"
    by (simp add: findMemoAnchorLine_def mkMemo_def str_eval)
  have r: "reinsertMemos ''Hello'' [(mkMemo ''m1'' ''open'')\<lparr>m_anchorText := ''Hello''\<rparr>]
      = joinWith [NL]
          (''Hello'' # serializeMemoV2_lines ((mkMemo ''m1'' ''open'')\<lparr>m_anchorText := ''Hello''\<rparr>))"
    using reinsertMemos_explicit [of "[(mkMemo ''m1'' ''open'')\<lparr>m_anchorText := ''Hello''\<rparr>]" "''Hello''"]
    by (simp add: f serializeMemoV2_def serializeMemoV2_lines_def)
  show ?thesis
    by (simp add: mergeDocument_def mergeSections_def topMemoParts_def r)
qed

text \<open>
  C8, as stated for every text in canonical form, does not hold. The memo block at the top
  of \<open>topMemoText\<close> has no body line above it, so the splitter leaves its
  \<^verbatim>\<open>anchorText\<close> empty, and the merger, which cannot resolve the memo, writes it after the
  body. At the second split the memo stands below the body line, and its \<^verbatim>\<open>anchorText\<close>
  is filled with that line (\<^verbatim>\<open>a.anchorText || findAnchorAbove(bodyLines) || ''\<close>): the
  second merge writes \<^verbatim>\<open>anchorText="Hello"\<close> where the first wrote \<^verbatim>\<open>anchorText=""\<close>.
\<close>

theorem C8_counterexample:
  "mergeDocument (splitDocument clk0 topMemoText)
     = joinWith [NL] (''Hello'' # serializeMemoV2_lines (mkMemo ''m1'' ''open'')) @ [NL]
   \<and> mergeDocument (splitDocument clk0 (mergeDocument (splitDocument clk0 topMemoText)))
     = joinWith [NL]
         (''Hello'' # serializeMemoV2_lines ((mkMemo ''m1'' ''open'')\<lparr>m_anchorText := ''Hello''\<rparr>))
       @ [NL]
   \<and> mergeDocument (splitDocument clk0 (mergeDocument (splitDocument clk0 topMemoText)))
     \<noteq> mergeDocument (splitDocument clk0 topMemoText)"
proof -
  have "joinWith [NL]
         (''Hello'' # serializeMemoV2_lines ((mkMemo ''m1'' ''open'')\<lparr>m_anchorText := ''Hello''\<rparr>))
      \<noteq> joinWith [NL] (''Hello'' # serializeMemoV2_lines (mkMemo ''m1'' ''open''))"
    by (simp add: serializeMemoV2_lines_def mkMemo_def attrLine_def esc_def)
  then have 3: "joinWith [NL]
         (''Hello'' # serializeMemoV2_lines ((mkMemo ''m1'' ''open'')\<lparr>m_anchorText := ''Hello''\<rparr>))
         @ [NL]
      \<noteq> joinWith [NL] (''Hello'' # serializeMemoV2_lines (mkMemo ''m1'' ''open'')) @ [NL]"
    by simp
  have 1: "mergeDocument (splitDocument clk0 topMemoText)
      = joinWith [NL] (''Hello'' # serializeMemoV2_lines (mkMemo ''m1'' ''open'')) @ [NL]"
    by (simp only: topMemo_split topMemo_merge)
  have 2: "mergeDocument (splitDocument clk0 (mergeDocument (splitDocument clk0 topMemoText)))
      = joinWith [NL]
          (''Hello'' # serializeMemoV2_lines ((mkMemo ''m1'' ''open'')\<lparr>m_anchorText := ''Hello''\<rparr>))
        @ [NL]"
    by (simp only: topMemo_split topMemo_resplit topMemo_remerge)
  from 3 show ?thesis unfolding 2 unfolding 1 by simp
qed

text \<open>
  C8 (amended). Let the bundle that \<^verbatim>\<open>splitDocument\<close> returns for the text be valid
  (\<open>validParts\<close>, the conditions listed at C1: body lines that open no annotation comment;
  string fields without double quote and newline, non-empty where the splitter would put
  a default, so every memo has an \<^verbatim>\<open>anchorText\<close>; \<^verbatim>\<open>blockedBy\<close> ids non-empty, trimmed
  and without comma; reviewed sections without comma and not the list of one empty string;
  checkpoint counts below \<open>2 ^ 53\<close>), and let the frontmatter pattern find in the document
  merged from that bundle what the merger wrote (\<open>frontmatterKept\<close>). Then a second round
  trip changes nothing: \<^verbatim>\<open>merge(split(merge(split(text)))) = merge(split(text))\<close>, whatever
  the clock reads at either split.
\<close>

theorem merge_split_idempotent:
  assumes "validParts (splitDocument clk T)" and "frontmatterKept (splitDocument clk T)"
  shows "mergeDocument (splitDocument clk' (mergeDocument (splitDocument clk T)))
       = mergeDocument (splitDocument clk T)"
proof -
  have "joinWith [NL] (trimTrailingBlank (splitOn NL (body (splitDocument clk T))))
      = body (splitDocument clk T)"
    by (rule split_body_trimmed)
  with assms show ?thesis by (rule merge_split_merge)
qed

text \<open>The document that \<open>mergeDocument\<close> writes for the bundle \<open>reviewParts\<close>.\<close>

definition reviewText :: string where
  \<open>reviewText =
     ''---\<newline>title: x\<newline>---\<newline>\<newline>''
     @ ''# Title\<newline>Some line\<newline>''
     @ ''<!-- USER_MEMO\<newline>  id="m1"\<newline>  type="fix"\<newline>  status="open"\<newline>  owner="human"\<newline>''
     @ ''  source="generic"\<newline>  color="red"\<newline>  text=""\<newline>  anchorText="Some line"\<newline>''
     @ ''  anchor=""\<newline>  createdAt="t0"\<newline>  updatedAt="t0"\<newline>-->\<newline>\<newline>''
     @ ''<!-- GATE\<newline>  id="g1"\<newline>  type="merge"\<newline>  status="blocked"\<newline>  blockedBy="m1"\<newline>''
     @ ''  canProceedIf=""\<newline>  doneDefinition=""\<newline>-->\<newline>\<newline>''
     @ ''<!-- CHECKPOINT id="cp1" time="t1" note="first pass" fixes=1 questions=0 highlights=2''
     @ '' sections="Intro" -->\<newline>\<newline>''
     @ ''<!-- PLAN_CURSOR\<newline>  taskId="task-1"\<newline>  step="2/5"\<newline>  nextAction="review"\<newline>''
     @ ''  lastSeenHash="abc"\<newline>  updatedAt="t2"\<newline>-->\<newline>''\<close>

lemma digitChar_eval:
  "digitChar 0 = CHR ''0''" "digitChar 1 = CHR ''1''" "digitChar 2 = CHR ''2''"
proof -
  have "(of_char (digitChar 0) :: nat) = of_char (CHR ''0'')" by (simp add: digitChar_def)
  then show "digitChar 0 = CHR ''0''" by (simp only: of_char_eq_iff)
  have "(of_char (digitChar 1) :: nat) = of_char (CHR ''1'')" by (simp add: digitChar_def)
  then show "digitChar 1 = CHR ''1''" by (simp only: of_char_eq_iff)
  have "(of_char (digitChar 2) :: nat) = of_char (CHR ''2'')" by (simp add: digitChar_def)
  then show "digitChar 2 = CHR ''2''" by (simp only: of_char_eq_iff)
qed

lemma reviewText_merge: "mergeDocument reviewParts = reviewText"
proof -
  have n: "showNat 0 = ''0''" "showNat (Suc 0) = ''1''" "showNat 2 = ''2''"
    using digitChar_eval
    by (simp_all add: showNat.simps [of 0] showNat.simps [of "Suc 0"] showNat.simps [of 2])
  have g: \<open>map serializeGate (gates reviewParts) =
      [''<!-- GATE\<newline>  id="g1"\<newline>  type="merge"\<newline>  status="blocked"\<newline>  blockedBy="m1"\<newline>''
       @ ''  canProceedIf=""\<newline>  doneDefinition=""\<newline>-->'']\<close>
    by (simp add: reviewParts_def serializeGate_def serializeGate_lines_def mkGate_def
        attrLine_def esc_def)
  have c: \<open>map serializeCheckpoint (checkpoints reviewParts) =
      [''<!-- CHECKPOINT id="cp1" time="t1" note="first pass" fixes=1 questions=0 highlights=2''
       @ '' sections="Intro" -->'']\<close>
    by (simp add: reviewParts_def serializeCheckpoint_def esc_def n)
  have k: \<open>(case cursor reviewParts of Some cur \<Rightarrow> [serializeCursor cur] | None \<Rightarrow> []) =
      [''<!-- PLAN_CURSOR\<newline>  taskId="task-1"\<newline>  step="2/5"\<newline>  nextAction="review"\<newline>''
       @ ''  lastSeenHash="abc"\<newline>  updatedAt="t2"\<newline>-->'']\<close>
    by (simp add: reviewParts_def serializeCursor_def serializeCursor_lines_def attrLine_def esc_def)
  have m: \<open>reinsertMemos (body reviewParts) (memos reviewParts) =
      ''# Title\<newline>Some line\<newline>''
      @ ''<!-- USER_MEMO\<newline>  id="m1"\<newline>  type="fix"\<newline>  status="open"\<newline>  owner="human"\<newline>''
      @ ''  source="generic"\<newline>  color="red"\<newline>  text=""\<newline>  anchorText="Some line"\<newline>''
      @ ''  anchor=""\<newline>  createdAt="t0"\<newline>  updatedAt="t0"\<newline>-->''\<close>
    unfolding reviewParts_reinsert
    by (simp add: serializeMemoV2_def serializeMemoV2_lines_def anchored_def mkMemo_def
        attrLine_def esc_def)
  have f: "frontmatter reviewParts \<noteq> []" "trimEnd (frontmatter reviewParts) = ''---\<newline>title: x\<newline>---''"
    by (simp_all add: reviewParts_def str_eval)
  show ?thesis
    unfolding mergeDocument_rest restSections_def g c k m f reviewText_def
    by (simp add: f)
qed

theorem merge_split_idempotent_witness:
  "validParts (splitDocument clk0 reviewText) \<and> frontmatterKept (splitDocument clk0 reviewText)
   \<and> mergeDocument (splitDocument clk0 reviewText) = reviewText
   \<and> mergeDocument (splitDocument clk0 (mergeDocument (splitDocument clk0 reviewText)))
     = mergeDocument (splitDocument clk0 reviewText)"
proof -
  have b: "joinWith [NL] (trimTrailingBlank (splitOn NL (body reviewParts))) = body reviewParts"
    by (simp add: reviewParts_def trimTrailingBlank_def str_eval)
  have v: "validParts (splitDocument clk0 reviewText) \<and> frontmatterKept (splitDocument clk0 reviewText)"
    using split_merge_valid [OF reviewParts_valid reviewParts_frontmatterKept b, of clk0]
    by (simp only: reviewText_merge)
  have m: "mergeDocument (splitDocument clk0 reviewText) = reviewText"
    using merge_split_merge [OF reviewParts_valid reviewParts_frontmatterKept b, of clk0]
    by (simp only: reviewText_merge)
  from merge_split_idempotent [OF v [THEN conjunct1] v [THEN conjunct2], of clk0] v m
  show ?thesis by blast
qed

end
